theory Spec2Isabelle
  imports Complex_Main "HOL-Library.Sublist" "HOL-Library.Char_ord" "HOL-Library.List_Lexorder"
begin

section \<open>JavaScript values read by the two watchers\<close>

text \<open>
  Both programs obtain their records from \<open>JSON.parse\<close> and read them without any
  schema check, so the model keeps the dynamic values: everything \<open>JSON.parse\<close> can
  return, and \<open>undefined\<close> for a property that is not there. Strings are lists of
  characters with codes below 256; file contents are such strings too, one character per
  byte, so that byte offsets and string positions coincide.
\<close>

datatype jsval =
    JUndefined
  | JNull
  | JBool bool
  | JNum real
  | JStr string
  | JArr "jsval list"
  | JObj "(string \<times> jsval) list"

text \<open>
  \<open>JSON.parse\<close> belongs to the JavaScript runtime, not to the repository. The model
  takes it as a parameter: \<open>None\<close> stands for the \<open>SyntaxError\<close> it throws.
\<close>

type_synonym parser = "string \<Rightarrow> jsval option"

text \<open>Truthiness, as tested by \<open>if (v)\<close>, \<open>v && w\<close> and \<open>v || w\<close>.\<close>

fun truthy :: "jsval \<Rightarrow> bool" where
  "truthy JUndefined = False"
| "truthy JNull = False"
| "truthy (JBool b) = b"
| "truthy (JNum n) = (n \<noteq> 0)"
| "truthy (JStr s) = (s \<noteq> [])"
| "truthy (JArr xs) = True"
| "truthy (JObj kvs) = True"

definition js_or :: "jsval \<Rightarrow> jsval \<Rightarrow> jsval" where
  "js_or a b = (if truthy a then a else b)"

text \<open>
  Reading a property \<open>v.k\<close>, for the property names the watchers read from parsed
  records (none of them is inherited from a prototype). \<open>None\<close> is the \<open>TypeError\<close>
  of reading a property of \<open>null\<close> or \<open>undefined\<close>. An object that repeats a key
  keeps the last value, as \<open>JSON.parse\<close> builds it.
\<close>

fun get :: "jsval \<Rightarrow> string \<Rightarrow> jsval option" where
  "get JUndefined k = None"
| "get JNull k = None"
| "get (JObj kvs) k = Some (case map_of (rev kvs) k of None \<Rightarrow> JUndefined | Some v \<Rightarrow> v)"
| "get v k = Some JUndefined"

text \<open>\<open>String.prototype.trim\<close>: white space and line terminators with codes below 256.\<close>

definition js_space :: "char \<Rightarrow> bool" where
  "js_space c = (c \<in> set [CHR 0x09, CHR 0x0A, CHR 0x0B, CHR 0x0C, CHR 0x0D, CHR 0x20, CHR 0xA0])"

definition js_trim :: "string \<Rightarrow> string" where
  "js_trim s = rev (dropWhile js_space (rev (dropWhile js_space s)))"

text \<open>\<open>String.prototype.toLowerCase\<close> on the same range, and \<open>String.prototype.includes\<close>.\<close>

definition js_lower_char :: "char \<Rightarrow> char" where
  "js_lower_char c =
     (let n = (of_char c :: nat)
      in if (65 \<le> n \<and> n \<le> 90) \<or> (192 \<le> n \<and> n \<le> 222 \<and> n \<noteq> 215)
         then char_of (n + 32) else c)"

definition toLowerCase :: "string \<Rightarrow> string" where
  "toLowerCase s = map js_lower_char s"

fun js_includes :: "string \<Rightarrow> string \<Rightarrow> bool" where
  "js_includes [] pat = (pat = [])"
| "js_includes (c # cs) pat = (prefix pat (c # cs) \<or> js_includes cs pat)"

text \<open>
  The comparison \<open>v > 0\<close>, which converts \<open>v\<close> to a number first. A string is
  converted as a numeric literal between white space: a decimal literal with an optional
  sign, fraction and exponent, \<open>Infinity\<close>, or an unsigned hexadecimal, octal or binary
  literal; the empty string is 0 and any other string is \<open>NaN\<close>, which is not greater
  than 0. A decimal literal with a non-zero digit denotes a number greater than 0 unless
  it is rounded to 0, which happens up to \<open>2 ^ -1075\<close>, half of the least positive
  number. An array is converted through the string that joins its elements with commas,
  where \<open>null\<close> gives the empty string; with two or more elements that string is no
  numeric literal. An object is converted to \<open>NaN\<close>. Where the conversion throws
  instead, the caller below drops the row in its \<open>catch\<close>, as it does where the
  comparison is false.
\<close>

definition dec_digit :: "char \<Rightarrow> bool" where
  "dec_digit c = (48 \<le> (of_char c :: nat) \<and> (of_char c :: nat) \<le> 57)"

definition hex_digit :: "char \<Rightarrow> bool" where
  "hex_digit c =
     (dec_digit c \<or> (65 \<le> (of_char c :: nat) \<and> (of_char c :: nat) \<le> 70)
                 \<or> (97 \<le> (of_char c :: nat) \<and> (of_char c :: nat) \<le> 102))"

definition oct_digit :: "char \<Rightarrow> bool" where
  "oct_digit c = (48 \<le> (of_char c :: nat) \<and> (of_char c :: nat) \<le> 55)"

definition bin_digit :: "char \<Rightarrow> bool" where
  "bin_digit c = (c = CHR ''0'' \<or> c = CHR ''1'')"

text \<open>The digits of a hexadecimal, octal or binary literal with a value above 0.\<close>

definition nonzero_digits :: "(char \<Rightarrow> bool) \<Rightarrow> string \<Rightarrow> bool" where
  "nonzero_digits ok ds = (ds \<noteq> [] \<and> list_all ok ds \<and> list_ex (\<lambda>c. c \<noteq> CHR ''0'') ds)"

definition digits_nat :: "string \<Rightarrow> nat" where
  "digits_nat ds = foldl (\<lambda>n c. 10 * n + (of_char c - 48)) 0 ds"

text \<open>
  The exponent part of a decimal literal, from its \<open>e\<close> on: its value, or \<open>None\<close> when
  it is malformed. No exponent part is the exponent 0.
\<close>

definition exponent_value :: "string \<Rightarrow> int option" where
  "exponent_value ex =
     (case ex of
        [] \<Rightarrow> Some 0
      | e # r \<Rightarrow>
          (let neg = (r \<noteq> [] \<and> hd r = CHR ''-'');
               ds = (if r \<noteq> [] \<and> (hd r = CHR ''-'' \<or> hd r = CHR ''+'') then tl r else r)
           in if ds \<noteq> [] \<and> list_all dec_digit ds
              then Some (if neg then - int (digits_nat ds) else int (digits_nat ds))
              else None))"

text \<open>An unsigned decimal literal that is converted to a number greater than 0.\<close>

definition decimal_positive :: "string \<Rightarrow> bool" where
  "decimal_positive t =
     (if t = ''Infinity'' then True
      else
        (let mant = takeWhile (\<lambda>c. c \<noteq> CHR ''e'' \<and> c \<noteq> CHR ''E'') t;
             ex = dropWhile (\<lambda>c. c \<noteq> CHR ''e'' \<and> c \<noteq> CHR ''E'') t;
             ip = takeWhile dec_digit mant;
             after = dropWhile dec_digit mant;
             fp = (if after = [] then [] else tl after);
             wellformed =
               (if after = [] then ip \<noteq> []
                else hd after = CHR ''.'' \<and> list_all dec_digit fp \<and> (ip \<noteq> [] \<or> fp \<noteq> []))
         in case exponent_value ex of
              None \<Rightarrow> False
            | Some e \<Rightarrow>
                wellformed \<and> 0 < digits_nat (ip @ fp) \<and>
                (0 \<le> e - int (length fp) \<or>
                 10 ^ nat (int (length fp) - e) < int (digits_nat (ip @ fp)) * 2 ^ 1075)))"

definition string_positive :: "string \<Rightarrow> bool" where
  "string_positive s =
     (let t = js_trim s
      in if prefix ''0x'' t \<or> prefix ''0X'' t then nonzero_digits hex_digit (drop 2 t)
         else if prefix ''0o'' t \<or> prefix ''0O'' t then nonzero_digits oct_digit (drop 2 t)
         else if prefix ''0b'' t \<or> prefix ''0B'' t then nonzero_digits bin_digit (drop 2 t)
         else if t \<noteq> [] \<and> hd t = CHR ''-'' then False
         else decimal_positive (if t \<noteq> [] \<and> hd t = CHR ''+'' then tl t else t))"

text \<open>The string that \<open>join\<close> gives for an array with this one element is greater than 0.\<close>

fun joined_positive :: "jsval \<Rightarrow> bool" where
  "joined_positive (JNum n) = (0 < n)"
| "joined_positive (JStr s) = string_positive s"
| "joined_positive (JArr [x]) = joined_positive x"
| "joined_positive v = False"

fun greater_zero :: "jsval \<Rightarrow> bool" where
  "greater_zero (JBool b) = b"
| "greater_zero (JNum n) = (0 < n)"
| "greater_zero (JStr s) = string_positive s"
| "greater_zero (JArr xs) = joined_positive (JArr xs)"
| "greater_zero v = False"

section \<open>The log-file source (extract\_msg.ts)\<close>

subsection \<open>Messages\<close>

datatype role = User | Assistant

text \<open>
  \<open>interface Message\<close>. The fields \<open>timestamp\<close> and \<open>id\<close> are declared as strings
  but are filled with \<open>data.timestamp || ""\<close> and \<open>data.uuid || ""\<close>, whatever the
  record holds there, so the model keeps the value. \<open>Set.has\<close> compares the strings
  that the interface declares, and numbers, booleans and \<open>null\<close>, by value; it compares
  arrays and objects by reference. Every line is parsed by a call of its own, which
  builds new objects, so two messages hold the same \<open>uuid\<close> object exactly when they
  come from the same line of the same read. The field \<open>m_line\<close>, which the interface
  does not have, records that line by its number in the read, and stands for the
  identity of the object.
\<close>

record message =
  m_type :: role
  m_text :: string
  m_timestamp :: jsval
  m_id :: jsval
  m_line :: nat

text \<open>The values that \<open>Set.has\<close> compares by value: all but arrays and objects.\<close>

fun primitive :: "jsval \<Rightarrow> bool" where
  "primitive (JArr xs) = False"
| "primitive (JObj kvs) = False"
| "primitive v = True"

subsection \<open>One parsed line\<close>

text \<open>\<open>item.text?.trim() || ""\<close>; \<open>None\<close> when \<open>trim\<close> is not a function of the value.\<close>

fun item_text :: "jsval \<Rightarrow> string option" where
  "item_text JUndefined = Some []"
| "item_text JNull = Some []"
| "item_text (JStr s) = Some (js_trim s)"
| "item_text v = None"

definition mk_message :: "role \<Rightarrow> jsval \<Rightarrow> nat \<Rightarrow> string \<Rightarrow> message list" where
  "mk_message r data k text =
     (case (get data ''timestamp'', get data ''uuid'') of
        (Some ts, Some u) \<Rightarrow>
          [\<lparr>m_type = r, m_text = text,
            m_timestamp = js_or ts (JStr []), m_id = js_or u (JStr []), m_line = k\<rparr>]
      | _ \<Rightarrow> [])"

text \<open>
  The body of \<open>for (const item of content)\<close> in the user branch and in the assistant
  branch, for the record \<open>data\<close> of line \<open>k\<close>: the messages the item pushes, or
  \<open>None\<close> when it throws.
\<close>

definition user_item :: "jsval \<Rightarrow> nat \<Rightarrow> jsval \<Rightarrow> message list option" where
  "user_item data k item =
     (case get item ''type'' of
        None \<Rightarrow> None
      | Some t \<Rightarrow>
          if t = JStr ''text'' then
            (case get item ''text'' of
               None \<Rightarrow> None
             | Some tv \<Rightarrow>
                 (case item_text tv of
                    None \<Rightarrow> None
                  | Some text \<Rightarrow>
                      Some (if text \<noteq> [] \<and> \<not> prefix ''<'' text
                               \<and> \<not> prefix ''This may or may not'' text
                            then mk_message User data k text else [])))
          else Some [])"

definition assistant_item :: "jsval \<Rightarrow> nat \<Rightarrow> jsval \<Rightarrow> message list option" where
  "assistant_item data k item =
     (case get item ''type'' of
        None \<Rightarrow> None
      | Some t \<Rightarrow>
          if t = JStr ''text'' then
            (case get item ''text'' of
               None \<Rightarrow> None
             | Some tv \<Rightarrow>
                 (case item_text tv of
                    None \<Rightarrow> None
                  | Some text \<Rightarrow>
                      Some (if text \<noteq> [] then mk_message Assistant data k text else [])))
          else Some [])"

text \<open>
  The loop over the content items. An item that throws ends the loop (the exception
  leaves through the \<open>catch\<close> of the line); what was pushed before stays in \<open>messages\<close>.
\<close>

fun push_items :: "(jsval \<Rightarrow> message list option) \<Rightarrow> jsval list \<Rightarrow> message list" where
  "push_items f [] = []"
| "push_items f (item # items) =
     (case f item of None \<Rightarrow> [] | Some ms \<Rightarrow> ms @ push_items f items)"

text \<open>
  What \<open>for ... of\<close> iterates over: the elements of an array, the characters of a
  string; anything else is not iterable (\<open>None\<close>).
\<close>

fun iterate :: "jsval \<Rightarrow> jsval list option" where
  "iterate (JArr xs) = Some xs"
| "iterate (JStr s) = Some (map (\<lambda>c. JStr [c]) s)"
| "iterate v = None"

definition content_messages :: "(jsval \<Rightarrow> message list option) \<Rightarrow> jsval \<Rightarrow> message list" where
  "content_messages f msg =
     (case get msg ''content'' of
        None \<Rightarrow> []
      | Some c \<Rightarrow>
          (case iterate (js_or c (JArr [])) of
             None \<Rightarrow> []
           | Some items \<Rightarrow> push_items f items))"

text \<open>
  The body of the \<open>try\<close> for line \<open>k\<close>, after \<open>JSON.parse\<close> has returned \<open>data\<close>.
\<close>

definition process_record :: "jsval \<Rightarrow> nat \<Rightarrow> message list" where
  "process_record data k =
     (case (get data ''agentId'', get data ''type'', get data ''message'') of
        (Some agent, Some t, Some msg) \<Rightarrow>
          if truthy agent then []
          else if t = JStr ''user'' \<and> truthy msg then content_messages (user_item data k) msg
          else if t = JStr ''assistant'' \<and> truthy msg then content_messages (assistant_item data k) msg
          else []
      | _ \<Rightarrow> [])"

definition line_messages :: "parser \<Rightarrow> nat \<Rightarrow> string \<Rightarrow> message list" where
  "line_messages parse k line =
     (case parse line of None \<Rightarrow> [] | Some data \<Rightarrow> process_record data k)"

text \<open>The loop over the lines of a read, \<open>k\<close> being the number of the next line.\<close>

fun lines_messages :: "parser \<Rightarrow> nat \<Rightarrow> string list \<Rightarrow> message list" where
  "lines_messages parse k [] = []"
| "lines_messages parse k (line # rest) =
     line_messages parse k line @ lines_messages parse (Suc k) rest"

subsection \<open>Reading a file from an offset\<close>

text \<open>
  What one visit of a file can observe. \<open>contents\<close> are the bytes the read stream can
  deliver; \<open>read_error_after = Some k\<close> says that the stream emits \<open>error\<close> once
  \<open>k\<close> bytes past the start offset have been delivered (\<open>Some 0\<close>: the file cannot be
  opened); \<open>stat_size\<close> is \<open>fs.statSync(filePath).size\<close>, \<open>None\<close> when \<open>statSync\<close>
  throws. The read and the \<open>stat\<close> are separate system calls, so the two need not agree.
\<close>

record file_view =
  contents :: string
  read_error_after :: "nat option"
  stat_size :: "nat option"

text \<open>
  The \<open>readline\<close> interface with \<open>crlfDelay: Infinity\<close>: a line ends at LF, at CR LF or
  at a CR alone (the Unicode line separators, which recent versions of \<open>readline\<close> accept
  as well, are not among the characters of the model). \<open>scan_lines cur s\<close> returns the
  lines that are terminated in \<open>s\<close> and the unterminated rest, \<open>cur\<close> being the line
  read so far.
\<close>

fun scan_lines :: "string \<Rightarrow> string \<Rightarrow> string list \<times> string" where
  "scan_lines cur [] = ([], cur)"
| "scan_lines cur [c] =
     (if c = CHR 0x0D \<or> c = CHR 0x0A then ([cur], []) else ([], cur @ [c]))"
| "scan_lines cur (c # d # ds) =
     (if c = CHR 0x0D \<and> d = CHR 0x0A then
        (case scan_lines [] ds of (ls, rest) \<Rightarrow> (cur # ls, rest))
      else if c = CHR 0x0D \<or> c = CHR 0x0A then
        (case scan_lines [] (d # ds) of (ls, rest) \<Rightarrow> (cur # ls, rest))
      else scan_lines (cur @ [c]) (d # ds))"

text \<open>
  The lines that \<open>for await (const line of rl)\<close> yields. When the stream ends, the
  interface also yields the unterminated rest if it is not empty; when the stream fails,
  the loop gets the lines terminated in what was delivered and then the error.
\<close>

definition stream_lines :: "file_view \<Rightarrow> nat \<Rightarrow> string list" where
  "stream_lines fv lastPos =
     (case read_error_after fv of
        None \<Rightarrow>
          (case scan_lines [] (drop lastPos (contents fv)) of
             (ls, rest) \<Rightarrow> if rest = [] then ls else ls @ [rest])
      | Some k \<Rightarrow> fst (scan_lines [] (take k (drop lastPos (contents fv)))))"

text \<open>
  \<open>extractAllMessages\<close>: \<open>messages\<close> is declared outside the outer \<open>try\<close>, and the
  outer \<open>catch\<close> only ignores the read error, so the function returns what the lines
  read before the error have pushed.
\<close>

definition extractAllMessages :: "parser \<Rightarrow> file_view \<Rightarrow> nat \<Rightarrow> message list" where
  "extractAllMessages parse fv lastPos = lines_messages parse 0 (stream_lines fv lastPos)"

subsection \<open>Finding the conversation files\<close>

text \<open>
  \<open>findConversationFiles\<close> fills a \<open>Map\<close> from the name of the parent directory to the
  paths of its \<open>.jsonl\<close> files. The model takes the visits of \<open>walkDir\<close> as given: the
  pairs (\<open>path.basename(dir)\<close>, \<open>fullPath\<close>) of the \<open>.jsonl\<close> files in the order in
  which the walk reaches them. The \<open>Map\<close> is a list of entries in insertion order.
\<close>

definition filtered_out :: "string option \<Rightarrow> string \<Rightarrow> bool" where
  "filtered_out projectFilter parent =
     (case projectFilter of
        None \<Rightarrow> False
      | Some f \<Rightarrow> f \<noteq> [] \<and> \<not> js_includes (toLowerCase parent) (toLowerCase f))"

definition map_push :: "string \<Rightarrow> string \<Rightarrow> (string \<times> string list) list \<Rightarrow> (string \<times> string list) list" where
  "map_push parent fullPath m =
     (if parent \<in> fst ` set m
      then map (\<lambda>(k, v). if k = parent then (k, v @ [fullPath]) else (k, v)) m
      else m @ [(parent, [fullPath])])"

fun collect_files :: "string option \<Rightarrow> (string \<times> string) list \<Rightarrow> (string \<times> string list) list \<Rightarrow> (string \<times> string list) list" where
  "collect_files projectFilter [] m = m"
| "collect_files projectFilter ((parent, fullPath) # rest) m =
     (if filtered_out projectFilter parent then collect_files projectFilter rest m
      else collect_files projectFilter rest (map_push parent fullPath m))"

definition findConversationFiles :: "string option \<Rightarrow> (string \<times> string) list \<Rightarrow> (string \<times> string list) list" where
  "findConversationFiles projectFilter walk = collect_files projectFilter walk []"

subsection \<open>The polling loop of watchConversations\<close>

record watch_state =
  seenResponses :: "string \<rightharpoonup> jsval set"
  filePositions :: "string \<rightharpoonup> nat"
  initialLoad :: bool

definition init_state :: watch_state where
  "init_state = \<lparr>seenResponses = Map.empty, filePositions = Map.empty, initialLoad = True\<rparr>"

text \<open>What one tick sees of the file system.\<close>

record fs_snapshot =
  walk :: "(string \<times> string) list"
  files :: "string \<Rightarrow> file_view"

text \<open>
  A message handed to the output code, with the project and the file it was read from.
  The output code prints \<open>message.text\<close> under the project name; the formatting is not
  modelled.
\<close>

datatype emitted = Emitted (e_project: string) (e_file: string) (e_message: message)

text \<open>
  \<open>for (const message of messages) if (!seen.has(message.id)) { seen.add(message.id); ... }\<close>

  A primitive identifier is found in the set when an equal value has been added. An
  array or object is found when the same object has been added, and that can only have
  happened earlier in this loop, for a message of the same line: every read parses its
  lines anew, so the objects that earlier reads have added are never met again. So the
  set of the state holds the primitive identifiers only, and the loop keeps in \<open>refs\<close>
  the lines whose \<open>uuid\<close> object it has added.
\<close>

fun emit_loop :: "jsval set \<Rightarrow> nat set \<Rightarrow> message list \<Rightarrow> jsval set \<times> message list" where
  "emit_loop seen refs [] = (seen, [])"
| "emit_loop seen refs (m # ms) =
     (if primitive (m_id m) then
        (if m_id m \<in> seen then emit_loop seen refs ms
         else (case emit_loop (insert (m_id m) seen) refs ms of
                 (seen', out) \<Rightarrow> (seen', m # out)))
      else
        (if m_line m \<in> refs then emit_loop seen refs ms
         else (case emit_loop seen (insert (m_line m) refs) ms of
                 (seen', out) \<Rightarrow> (seen', m # out))))"

definition emit_new :: "jsval set \<Rightarrow> message list \<Rightarrow> jsval set \<times> message list" where
  "emit_new seen messages = emit_loop seen {} messages"

definition update_position :: "file_view \<Rightarrow> string \<Rightarrow> watch_state \<Rightarrow> watch_state" where
  "update_position fv filePath s =
     (case stat_size fv of
        None \<Rightarrow> s
      | Some n \<Rightarrow> s\<lparr>filePositions := (filePositions s)(filePath \<mapsto> n)\<rparr>)"

text \<open>The body of \<open>for (const filePath of files)\<close>.\<close>

definition visit_file :: "parser \<Rightarrow> (string \<Rightarrow> file_view) \<Rightarrow> string \<Rightarrow> watch_state \<Rightarrow> string \<Rightarrow> watch_state \<times> emitted list" where
  "visit_file parse fs project s filePath =
     (case filePositions s filePath of
        None \<Rightarrow> (update_position (fs filePath) filePath s, [])
      | Some lastPos \<Rightarrow>
          (let messages = extractAllMessages parse (fs filePath) lastPos;
               s1 = update_position (fs filePath) filePath s;
               seen = (case seenResponses s1 filePath of None \<Rightarrow> {} | Some S \<Rightarrow> S)
           in case emit_new seen messages of
                (seen', new) \<Rightarrow>
                  (s1\<lparr>seenResponses := (seenResponses s1)(filePath \<mapsto> seen'),
                       initialLoad := initialLoad s1 \<and> new = []\<rparr>,
                   map (Emitted project filePath) new)))"

fun visit_files :: "parser \<Rightarrow> (string \<Rightarrow> file_view) \<Rightarrow> string \<Rightarrow> watch_state \<Rightarrow> string list \<Rightarrow> watch_state \<times> emitted list" where
  "visit_files parse fs project s [] = (s, [])"
| "visit_files parse fs project s (filePath # rest) =
     (case visit_file parse fs project s filePath of
        (s1, out1) \<Rightarrow>
          (case visit_files parse fs project s1 rest of
             (s2, out2) \<Rightarrow> (s2, out1 @ out2)))"

fun visit_projects :: "parser \<Rightarrow> (string \<Rightarrow> file_view) \<Rightarrow> (string \<times> string list) list \<Rightarrow> watch_state \<Rightarrow> string list \<Rightarrow> watch_state \<times> emitted list" where
  "visit_projects parse fs convFiles s [] = (s, [])"
| "visit_projects parse fs convFiles s (project # rest) =
     (case visit_files parse fs project s
             (case map_of convFiles project of None \<Rightarrow> [] | Some fps \<Rightarrow> fps) of
        (s1, out1) \<Rightarrow>
          (case visit_projects parse fs convFiles s1 rest of
             (s2, out2) \<Rightarrow> (s2, out1 @ out2)))"

text \<open>One pass of the \<open>while (true)\<close> loop, up to the sleep.\<close>

definition tick :: "parser \<Rightarrow> string option \<Rightarrow> fs_snapshot \<Rightarrow> watch_state \<Rightarrow> watch_state \<times> emitted list" where
  "tick parse projectFilter env s =
     (let convFiles = findConversationFiles projectFilter (walk env);
          s0 = (if initialLoad s \<and> convFiles = [] then s\<lparr>initialLoad := False\<rparr> else s);
          projects = sort (map fst convFiles)
      in visit_projects parse (files env) convFiles s0 projects)"

text \<open>What the loop does, in order: messages handed to the output code, and sleeps.\<close>

datatype 'e event = Emit 'e | Sleep nat

fun emissions :: "'e event list \<Rightarrow> 'e list" where
  "emissions [] = []"
| "emissions (Emit e # evs) = e # emissions evs"
| "emissions (Sleep n # evs) = emissions evs"

fun sleeps :: "'e event list \<Rightarrow> nat list" where
  "sleeps [] = []"
| "sleeps (Emit e # evs) = sleeps evs"
| "sleeps (Sleep n # evs) = n # sleeps evs"

text \<open>\<open>await new Promise((resolve) => setTimeout(resolve, 100))\<close>\<close>

definition poll_interval_ms :: nat where
  "poll_interval_ms = 100"

text \<open>
  \<open>watchConversations\<close>, after the check that the projects directory exists. The loop
  never ends by itself; the model performs one tick for each snapshot of a list, each
  followed by the sleep.
\<close>

fun watchConversations :: "parser \<Rightarrow> string option \<Rightarrow> fs_snapshot list \<Rightarrow> watch_state \<Rightarrow> watch_state \<times> emitted event list" where
  "watchConversations parse projectFilter [] s = (s, [])"
| "watchConversations parse projectFilter (env # envs) s =
     (case tick parse projectFilter env s of
        (s1, out1) \<Rightarrow>
          (case watchConversations parse projectFilter envs s1 of
             (s2, evs) \<Rightarrow> (s2, map Emit out1 @ Sleep poll_interval_ms # evs)))"

section \<open>The key-value source (extract\_cursor.mjs)\<close>

subsection \<open>Loading the conversations\<close>

record conversation =
  c_id :: jsval
  c_name :: jsval
  c_headers :: jsval
  c_lastUpdated :: jsval

text \<open>
  What one tick sees of the database: whether \<open>new Database(dbPath, ...)\<close> returns, the
  rows (key, value) of the \<open>composerData\<close> query (\<open>None\<close> when the query throws), and
  for a \<open>bubbleId\<close> the \<open>value\<close> of the row that the bubble query returns (\<open>None\<close>
  when there is no such row or the query throws).
\<close>

record db_snapshot =
  db_opens :: bool
  composer_rows :: "(string \<times> string) list option"
  bubble_row :: "jsval \<Rightarrow> string option"

text \<open>\<open>key.split(':')\<close>, \<open>cur\<close> being the piece read so far.\<close>

fun split_colon :: "string \<Rightarrow> string \<Rightarrow> string list" where
  "split_colon cur [] = [cur]"
| "split_colon cur (c # cs) =
     (if c = CHR '':'' then cur # split_colon [] cs else split_colon (cur @ [c]) cs)"

definition composer_id :: "string \<Rightarrow> jsval" where
  "composer_id key =
     (case split_colon [] key of a # b # rest \<Rightarrow> JStr b | _ \<Rightarrow> JUndefined)"

text \<open>
  \<open>headers.length > 0\<close>. An array and a string have their length; of an object the
  \<open>length\<close> member, if there is one, is compared with 0; any other value has no
  \<open>length\<close>, and \<open>undefined > 0\<close> is false.
\<close>

fun length_positive :: "jsval \<Rightarrow> bool" where
  "length_positive (JArr xs) = (xs \<noteq> [])"
| "length_positive (JStr s) = (s \<noteq> [])"
| "length_positive (JObj kvs) =
     (case map_of (rev kvs) ''length'' of
        None \<Rightarrow> False
      | Some v \<Rightarrow> greater_zero v)"
| "length_positive v = False"

text \<open>
  \<open>composerData.name || `Conversation ${composerId.slice(0, 8)}`\<close>; \<open>None\<close> when
  the name is missing and \<open>composerId\<close> is \<open>undefined\<close>.
\<close>

definition conversation_name :: "jsval \<Rightarrow> jsval \<Rightarrow> jsval option" where
  "conversation_name nm cid =
     (if truthy nm then Some nm
      else (case cid of JStr i \<Rightarrow> Some (JStr (''Conversation '' @ take 8 i)) | _ \<Rightarrow> None))"

text \<open>The body of the \<open>try\<close> for one row: the conversations it pushes.\<close>

definition load_row :: "parser \<Rightarrow> string \<times> string \<Rightarrow> conversation list" where
  "load_row parse row =
     (case parse (snd row) of
        None \<Rightarrow> []
      | Some composerData \<Rightarrow>
          (case (get composerData ''fullConversationHeadersOnly'', get composerData ''name'',
                 get composerData ''lastUpdatedAt'', get composerData ''createdAt'') of
             (Some h, Some nm, Some upd, Some cre) \<Rightarrow>
               (let composerId = composer_id (fst row);
                    headers = js_or h (JArr [])
                in if length_positive headers then
                     (case conversation_name nm composerId of
                        None \<Rightarrow> []
                      | Some name \<Rightarrow>
                          [\<lparr>c_id = composerId, c_name = name, c_headers = headers,
                            c_lastUpdated = js_or upd cre\<rparr>])
                   else [])
           | _ \<Rightarrow> []))"

definition loadConversations :: "parser \<Rightarrow> db_snapshot \<Rightarrow> conversation list" where
  "loadConversations parse db =
     (case composer_rows db of
        None \<Rightarrow> []
      | Some rows \<Rightarrow> concat (map (load_row parse) rows))"

subsection \<open>The polling loop of watchCursorConversations\<close>

record cursor_state =
  seenBubbles :: "jsval set"
  lastCheck :: nat

definition init_cursor_state :: cursor_state where
  "init_cursor_state = \<lparr>seenBubbles = {}, lastCheck = 0\<rparr>"

text \<open>
  A bubble handed to the output code: the conversation it was found in (its \<open>name\<close> is
  printed), the \<open>bubbleId\<close>, \<open>isUser\<close> and the text that is printed (in compact mode
  the output code prints only the beginning of its first line; the formatting is not
  modelled).
\<close>

datatype kv_emitted =
  KvEmitted (k_conversation: conversation) (k_bubble: jsval) (k_user: bool) (k_text: string)

text \<open>
  The inner \<open>try\<close>: the bubble is looked up and parsed, and it is printed if
  \<open>text.trim()\<close> is not empty. \<open>bubble_text\<close> is the text that is printed, \<open>None\<close>
  when nothing is printed; whatever throws there is caught, and nothing is printed.
\<close>

definition bubble_text :: "parser \<Rightarrow> (jsval \<Rightarrow> string option) \<Rightarrow> jsval \<Rightarrow> string option" where
  "bubble_text parse lookup bubbleId =
     (case lookup bubbleId of
        None \<Rightarrow> None
      | Some v \<Rightarrow>
          (case parse v of
             None \<Rightarrow> None
           | Some bubble \<Rightarrow>
               (case get bubble ''text'' of
                  None \<Rightarrow> None
                | Some tv \<Rightarrow>
                    (case js_or tv (JStr []) of
                       JStr text \<Rightarrow> if js_trim text \<noteq> [] then Some text else None
                     | _ \<Rightarrow> None))))"

definition bubble_output :: "parser \<Rightarrow> (jsval \<Rightarrow> string option) \<Rightarrow> conversation \<Rightarrow> jsval \<Rightarrow> jsval \<Rightarrow> kv_emitted list" where
  "bubble_output parse lookup conversation bubbleId headerType =
     (case bubble_text parse lookup bubbleId of
        None \<Rightarrow> []
      | Some text \<Rightarrow> [KvEmitted conversation bubbleId (headerType = JNum 1) text])"

text \<open>
  \<open>seenBubbles.has(bubbleId)\<close> and \<open>seenBubbles.add(bubbleId)\<close>. A primitive
  \<open>bubbleId\<close> is compared by value. An array or object is compared by reference; it is
  a new object for every header of every tick, since each tick parses the conversations
  anew, so it is never found in the set, and adding it has no effect on any later test.
  The set of the model holds the primitive values only.
\<close>

definition seen_has :: "jsval set \<Rightarrow> jsval \<Rightarrow> bool" where
  "seen_has seen bubbleId = (primitive bubbleId \<and> bubbleId \<in> seen)"

definition seen_add :: "jsval set \<Rightarrow> jsval \<Rightarrow> jsval set" where
  "seen_add seen bubbleId = (if primitive bubbleId then insert bubbleId seen else seen)"

text \<open>
  The body of \<open>for (const header of conversation.headers)\<close>: the new set of seen
  bubbles and what is printed, or \<open>None\<close> when reading \<open>header.bubbleId\<close> throws.
\<close>

definition visit_header :: "parser \<Rightarrow> (jsval \<Rightarrow> string option) \<Rightarrow> conversation \<Rightarrow> jsval set \<Rightarrow> jsval \<Rightarrow> (jsval set \<times> kv_emitted list) option" where
  "visit_header parse lookup conversation seen header =
     (case (get header ''bubbleId'', get header ''type'') of
        (Some bubbleId, Some headerType) \<Rightarrow>
          if seen_has seen bubbleId then Some (seen, [])
          else Some (seen_add seen bubbleId,
                     bubble_output parse lookup conversation bubbleId headerType)
      | _ \<Rightarrow> None)"

text \<open>
  The two loops. The third component of the result says whether the loop ran to its end;
  an exception outside the inner \<open>try\<close> leaves the tick through the \<open>catch\<close> around
  it, with the bubbles seen and printed so far.
\<close>

fun visit_headers :: "parser \<Rightarrow> (jsval \<Rightarrow> string option) \<Rightarrow> conversation \<Rightarrow> jsval set \<Rightarrow> jsval list \<Rightarrow> jsval set \<times> kv_emitted list \<times> bool" where
  "visit_headers parse lookup conversation seen [] = (seen, [], True)"
| "visit_headers parse lookup conversation seen (header # rest) =
     (case visit_header parse lookup conversation seen header of
        None \<Rightarrow> (seen, [], False)
      | Some (seen1, out1) \<Rightarrow>
          (case visit_headers parse lookup conversation seen1 rest of
             (seen2, out2, fin) \<Rightarrow> (seen2, out1 @ out2, fin)))"

text \<open>
  \<open>projectFilter && !conversation.name.toLowerCase().includes(projectFilter.toLowerCase())\<close>;
  \<open>None\<close> when the name has no \<open>toLowerCase\<close>.
\<close>

definition conversation_skipped :: "string option \<Rightarrow> jsval \<Rightarrow> bool option" where
  "conversation_skipped projectFilter name =
     (case projectFilter of
        None \<Rightarrow> Some False
      | Some f \<Rightarrow>
          if f = [] then Some False
          else (case name of
                  JStr n \<Rightarrow> Some (\<not> js_includes (toLowerCase n) (toLowerCase f))
                | _ \<Rightarrow> None))"

fun visit_conversations :: "parser \<Rightarrow> (jsval \<Rightarrow> string option) \<Rightarrow> string option \<Rightarrow> jsval set \<Rightarrow> conversation list \<Rightarrow> jsval set \<times> kv_emitted list \<times> bool" where
  "visit_conversations parse lookup projectFilter seen [] = (seen, [], True)"
| "visit_conversations parse lookup projectFilter seen (c # rest) =
     (case conversation_skipped projectFilter (c_name c) of
        None \<Rightarrow> (seen, [], False)
      | Some True \<Rightarrow> visit_conversations parse lookup projectFilter seen rest
      | Some False \<Rightarrow>
          (case iterate (c_headers c) of
             None \<Rightarrow> (seen, [], False)
           | Some headers \<Rightarrow>
               (case visit_headers parse lookup c seen headers of
                  (seen1, out1, fin1) \<Rightarrow>
                    if fin1 then
                      (case visit_conversations parse lookup projectFilter seen1 rest of
                         (seen2, out2, fin2) \<Rightarrow> (seen2, out1 @ out2, fin2))
                    else (seen1, out1, False))))"

text \<open>One pass of the \<open>while (true)\<close> loop, up to the sleep.\<close>

definition cursor_tick :: "parser \<Rightarrow> string option \<Rightarrow> db_snapshot \<Rightarrow> cursor_state \<Rightarrow> cursor_state \<times> kv_emitted list" where
  "cursor_tick parse projectFilter db s =
     (if \<not> db_opens db then (s, [])
      else
        (let conversations = loadConversations parse db;
             s1 = s\<lparr>lastCheck := length conversations\<rparr>
         in case visit_conversations parse (bubble_row db) projectFilter (seenBubbles s1) conversations of
              (seen', out, fin) \<Rightarrow> (s1\<lparr>seenBubbles := seen'\<rparr>, out)))"

text \<open>\<open>await new Promise(resolve => setTimeout(resolve, 500))\<close>\<close>

definition cursor_poll_interval_ms :: nat where
  "cursor_poll_interval_ms = 500"

text \<open>
  \<open>watchCursorConversations\<close>, after the check that the database file exists: one tick
  for each snapshot of a list, each followed by the sleep.
\<close>

fun watchCursorConversations :: "parser \<Rightarrow> string option \<Rightarrow> db_snapshot list \<Rightarrow> cursor_state \<Rightarrow> cursor_state \<times> kv_emitted event list" where
  "watchCursorConversations parse projectFilter [] s = (s, [])"
| "watchCursorConversations parse projectFilter (db # dbs) s =
     (case cursor_tick parse projectFilter db s of
        (s1, out1) \<Rightarrow>
          (case watchCursorConversations parse projectFilter dbs s1 of
             (s2, evs) \<Rightarrow> (s2, map Emit out1 @ Sleep cursor_poll_interval_ms # evs)))"

section \<open>A parser for the examples\<close>

text \<open>
  The general statements below hold for every parser. The worked examples need the
  result of \<open>JSON.parse\<close> on particular lines; \<open>json_parse\<close> computes it for the part
  of the JSON grammar without \<open>\u\<close> escapes and with integer numbers only (on any other
  text it gives \<open>None\<close>). The first argument of the three mutually recursive functions
  bounds the number of nested calls; the length of the text is enough.
\<close>

definition json_space :: "char \<Rightarrow> bool" where
  "json_space c = (c = CHR 0x20 \<or> c = CHR 0x09 \<or> c = CHR 0x0A \<or> c = CHR 0x0D)"

definition skip_ws :: "string \<Rightarrow> string" where
  "skip_ws s = dropWhile json_space s"

definition unescape :: "char \<Rightarrow> char option" where
  "unescape c =
     (if c = CHR 0x22 \<or> c = CHR 0x5C \<or> c = CHR ''/'' then Some c
      else if c = CHR ''b'' then Some (CHR 0x08)
      else if c = CHR ''f'' then Some (CHR 0x0C)
      else if c = CHR ''n'' then Some (CHR 0x0A)
      else if c = CHR ''r'' then Some (CHR 0x0D)
      else if c = CHR ''t'' then Some (CHR 0x09)
      else None)"

text \<open>The characters of a string literal after its opening quote, and what follows it.\<close>

fun parse_string :: "string \<Rightarrow> (string \<times> string) option" where
  "parse_string [] = None"
| "parse_string [c] = (if c = CHR 0x22 then Some ([], []) else None)"
| "parse_string (c # d # ds) =
     (if c = CHR 0x22 then Some ([], d # ds)
      else if c = CHR 0x5C then
        (case unescape d of
           None \<Rightarrow> None
         | Some ch \<Rightarrow>
             (case parse_string ds of
                None \<Rightarrow> None
              | Some (str, rest) \<Rightarrow> Some (ch # str, rest)))
      else if (of_char c :: nat) < 32 then None
      else (case parse_string (d # ds) of
              None \<Rightarrow> None
            | Some (str, rest) \<Rightarrow> Some (c # str, rest)))"

definition is_digit :: "char \<Rightarrow> bool" where
  "is_digit c = (48 \<le> (of_char c :: nat) \<and> (of_char c :: nat) \<le> 57)"

definition digits_value :: "string \<Rightarrow> int" where
  "digits_value ds = foldl (\<lambda>n c. 10 * n + (of_char c - 48)) 0 ds"

definition parse_number :: "string \<Rightarrow> (jsval \<times> string) option" where
  "parse_number s =
     (let neg = (s \<noteq> [] \<and> hd s = CHR ''-'');
          body = (if neg then tl s else s);
          ds = takeWhile is_digit body;
          rest = dropWhile is_digit body
      in if ds = [] \<or> (hd ds = CHR ''0'' \<and> tl ds \<noteq> []) then None
         else if rest \<noteq> [] \<and> (hd rest = CHR ''.'' \<or> hd rest = CHR ''e'' \<or> hd rest = CHR ''E'') then None
         else Some (JNum (of_int (if neg then - digits_value ds else digits_value ds)), rest))"

fun parse_value :: "nat \<Rightarrow> string \<Rightarrow> (jsval \<times> string) option"
  and parse_elements :: "nat \<Rightarrow> string \<Rightarrow> (jsval list \<times> string) option"
  and parse_members :: "nat \<Rightarrow> string \<Rightarrow> ((string \<times> jsval) list \<times> string) option" where
  "parse_value 0 s = None"
| "parse_value (Suc n) s =
     (case skip_ws s of
        [] \<Rightarrow> None
      | c # cs \<Rightarrow>
          if c = CHR ''{'' then
            (case skip_ws cs of
               [] \<Rightarrow> None
             | d # ds \<Rightarrow>
                 if d = CHR ''}'' then Some (JObj [], ds)
                 else (case parse_members n (d # ds) of
                         None \<Rightarrow> None
                       | Some (kvs, rest) \<Rightarrow> Some (JObj kvs, rest)))
          else if c = CHR ''['' then
            (case skip_ws cs of
               [] \<Rightarrow> None
             | d # ds \<Rightarrow>
                 if d = CHR '']'' then Some (JArr [], ds)
                 else (case parse_elements n (d # ds) of
                         None \<Rightarrow> None
                       | Some (vs, rest) \<Rightarrow> Some (JArr vs, rest)))
          else if c = CHR 0x22 then
            (case parse_string cs of
               None \<Rightarrow> None
             | Some (str, rest) \<Rightarrow> Some (JStr str, rest))
          else if c = CHR ''-'' \<or> is_digit c then parse_number (c # cs)
          else if prefix ''true'' (c # cs) then Some (JBool True, drop 4 (c # cs))
          else if prefix ''false'' (c # cs) then Some (JBool False, drop 5 (c # cs))
          else if prefix ''null'' (c # cs) then Some (JNull, drop 4 (c # cs))
          else None)"
| "parse_elements 0 s = None"
| "parse_elements (Suc n) s =
     (case parse_value n s of
        None \<Rightarrow> None
      | Some (v, rest) \<Rightarrow>
          (case skip_ws rest of
             [] \<Rightarrow> None
           | c # cs \<Rightarrow>
               if c = CHR '','' then
                 (case parse_elements n cs of
                    None \<Rightarrow> None
                  | Some (vs, rest') \<Rightarrow> Some (v # vs, rest'))
               else if c = CHR '']'' then Some ([v], cs)
               else None))"
| "parse_members 0 s = None"
| "parse_members (Suc n) s =
     (case skip_ws s of
        [] \<Rightarrow> None
      | c # cs \<Rightarrow>
          if c = CHR 0x22 then
            (case parse_string cs of
               None \<Rightarrow> None
             | Some (k, rest) \<Rightarrow>
                 (case skip_ws rest of
                    [] \<Rightarrow> None
                  | d # ds \<Rightarrow>
                      if d = CHR '':'' then
                        (case parse_value n ds of
                           None \<Rightarrow> None
                         | Some (v, rest2) \<Rightarrow>
                             (case skip_ws rest2 of
                                [] \<Rightarrow> None
                              | e # es \<Rightarrow>
                                  if e = CHR '','' then
                                    (case parse_members n es of
                                       None \<Rightarrow> None
                                     | Some (kvs, rest3) \<Rightarrow> Some ((k, v) # kvs, rest3))
                                  else if e = CHR ''}'' then Some ([(k, v)], es)
                                  else None))
                      else None))
          else None)"

definition json_parse :: parser where
  "json_parse s =
     (case parse_value (Suc (length s)) s of
        None \<Rightarrow> None
      | Some (v, rest) \<Rightarrow> if skip_ws rest = [] then Some v else None)"

section \<open>Notions used in the statements\<close>

text \<open>The identifiers of the messages emitted for one file, in the order of emission.\<close>

definition file_ids :: "string \<Rightarrow> emitted list \<Rightarrow> jsval list" where
  "file_ids p out = map (\<lambda>e. m_id (e_message e)) (filter (\<lambda>e. e_file e = p) out)"

text \<open>\<open>seenResponses.get(filePath)\<close>, empty when there is no entry yet.\<close>

definition seen_of :: "watch_state \<Rightarrow> string \<Rightarrow> jsval set" where
  "seen_of s p = (case seenResponses s p of None \<Rightarrow> {} | Some S \<Rightarrow> S)"

text \<open>
  The order in which the key-value watcher tests bubbles against \<open>seenBubbles\<close>: the
  pairs of a conversation and a \<open>bubbleId\<close> in the order of the two loops, up to the
  point where a tick is left by an exception. The second component says whether the
  loops ran to their end.
\<close>

fun scanned_headers :: "conversation \<Rightarrow> jsval list \<Rightarrow> (conversation \<times> jsval) list \<times> bool" where
  "scanned_headers c [] = ([], True)"
| "scanned_headers c (header # rest) =
     (case get header ''bubbleId'' of
        None \<Rightarrow> ([], False)
      | Some bubbleId \<Rightarrow>
          (case scanned_headers c rest of (ps, fin) \<Rightarrow> ((c, bubbleId) # ps, fin)))"

fun scanned :: "string option \<Rightarrow> conversation list \<Rightarrow> (conversation \<times> jsval) list \<times> bool" where
  "scanned projectFilter [] = ([], True)"
| "scanned projectFilter (c # rest) =
     (case conversation_skipped projectFilter (c_name c) of
        None \<Rightarrow> ([], False)
      | Some True \<Rightarrow> scanned projectFilter rest
      | Some False \<Rightarrow>
          (case iterate (c_headers c) of
             None \<Rightarrow> ([], False)
           | Some headers \<Rightarrow>
               (case scanned_headers c headers of
                  (ps, fin) \<Rightarrow>
                    if fin then
                      (case scanned projectFilter rest of (qs, fin2) \<Rightarrow> (ps @ qs, fin2))
                    else (ps, False))))"

definition tick_scan :: "parser \<Rightarrow> string option \<Rightarrow> db_snapshot \<Rightarrow> (conversation \<times> jsval) list" where
  "tick_scan parse projectFilter db =
     (if db_opens db then fst (scanned projectFilter (loadConversations parse db)) else [])"

definition run_scan :: "parser \<Rightarrow> string option \<Rightarrow> db_snapshot list \<Rightarrow> (conversation \<times> jsval) list" where
  "run_scan parse projectFilter dbs = concat (map (tick_scan parse projectFilter) dbs)"

text \<open>
  The pairs of a scan that pass the test against the seen bubbles: those whose
  \<open>bubbleId\<close> is an array or object, and those whose primitive \<open>bubbleId\<close> is neither
  in \<open>seen\<close> nor earlier in the scan.
\<close>

fun first_scans :: "jsval set \<Rightarrow> (conversation \<times> jsval) list \<Rightarrow> (conversation \<times> jsval) list" where
  "first_scans seen [] = []"
| "first_scans seen ((c, b) # ps) =
     (if seen_has seen b then first_scans seen ps
      else (c, b) # first_scans (seen_add seen b) ps)"

text \<open>The primitive values among the \<open>bubbleId\<close>s of a scan.\<close>

definition prim_ids :: "(conversation \<times> jsval) list \<Rightarrow> jsval set" where
  "prim_ids ps = {b \<in> snd ` set ps. primitive b}"

text \<open>
  The files of a project in the map of \<open>findConversationFiles\<close>, and the pairs of a
  project and a file in the order in which a tick visits them.
\<close>

definition files_of :: "(string \<times> string list) list \<Rightarrow> string \<Rightarrow> string list" where
  "files_of convFiles project = (case map_of convFiles project of None \<Rightarrow> [] | Some fps \<Rightarrow> fps)"

definition tick_order :: "string option \<Rightarrow> fs_snapshot \<Rightarrow> (string \<times> string) list" where
  "tick_order projectFilter env =
     (let convFiles = findConversationFiles projectFilter (walk env)
      in concat (map (\<lambda>project. map (Pair project) (files_of convFiles project))
                     (sort (map fst convFiles))))"

text \<open>The two nested loops of a tick as one loop over these pairs.\<close>

fun visit_pairs :: "parser \<Rightarrow> (string \<Rightarrow> file_view) \<Rightarrow> watch_state \<Rightarrow> (string \<times> string) list \<Rightarrow> watch_state \<times> emitted list" where
  "visit_pairs parse fs s [] = (s, [])"
| "visit_pairs parse fs s ((project, filePath) # rest) =
     (case visit_file parse fs project s filePath of
        (s1, out1) \<Rightarrow>
          (case visit_pairs parse fs s1 rest of
             (s2, out2) \<Rightarrow> (s2, out1 @ out2)))"

text \<open>The state with which a tick enters its loops.\<close>

definition tick_start :: "string option \<Rightarrow> fs_snapshot \<Rightarrow> watch_state \<Rightarrow> watch_state" where
  "tick_start pf env s =
     (if initialLoad s \<and> findConversationFiles pf (walk env) = [] then s\<lparr>initialLoad := False\<rparr> else s)"

text \<open>A scanned bubble for which the inner \<open>try\<close> prints something.\<close>

definition resolves :: "parser \<Rightarrow> (jsval \<Rightarrow> string option) \<Rightarrow> conversation \<times> jsval \<Rightarrow> bool" where
  "resolves parse lookup x = (bubble_text parse lookup (snd x) \<noteq> None)"

text \<open>The conversation and the bubble of an emission.\<close>

definition pair_of :: "kv_emitted \<Rightarrow> conversation \<times> jsval" where
  "pair_of e = (k_conversation e, k_bubble e)"

text \<open>
  The invariant of the log-file watcher: the primitive identifiers emitted for a file are
  pairwise different and all in the set of seen identifiers of that file.
\<close>

definition watch_inv :: "watch_state \<Rightarrow> emitted list \<Rightarrow> bool" where
  "watch_inv s out =
     (\<forall>p. distinct (filter primitive (file_ids p out)) \<and>
          set (filter primitive (file_ids p out)) \<subseteq> seen_of s p)"


section \<open>Example inputs\<close>

text \<open>
  \<open>view c\<close> is a file with the contents \<open>c\<close> whose read succeeds and whose \<open>stat\<close>
  reports the length of \<open>c\<close>. \<open>snapshot c\<close> is a projects directory with one project
  \<open>demo\<close> and one log file, seen in this way.
\<close>

definition log_file :: string where
  "log_file = ''/projects/demo/session.jsonl''"

definition view :: "string \<Rightarrow> file_view" where
  "view c = \<lparr>contents = c, read_error_after = None, stat_size = Some (length c)\<rparr>"

definition snapshot :: "string \<Rightarrow> fs_snapshot" where
  "snapshot c = \<lparr>walk = [(''demo'', log_file)], files = (\<lambda>p. view c)\<rparr>"

text \<open>A user record of 82 bytes, its first 20 bytes, and the message it yields.\<close>

definition hello_line :: string where
  \<open>hello_line = ''{"type":"user","message":{"content":[{"type":"text","text":"hello"}]},"uuid":"u1"}''\<close>

definition hello_prefix :: string where
  \<open>hello_prefix = ''{"type":"user","mess''\<close>

definition hello_message :: message where
  "hello_message =
     \<lparr>m_type = User, m_text = ''hello'', m_timestamp = JStr [], m_id = JStr ''u1'', m_line = 0\<rparr>"

text \<open>An assistant record, and the message it yields.\<close>

definition reply_line :: string where
  \<open>reply_line = ''{"type":"assistant","message":{"content":[{"type":"text","text":" hi there "}]},"uuid":"u2"}''\<close>

definition reply_message :: message where
  "reply_message =
     \<lparr>m_type = Assistant, m_text = ''hi there'', m_timestamp = JStr [], m_id = JStr ''u2'',
      m_line = 0\<rparr>"

text \<open>
  The file holds the two records; the read fails after the 83 bytes of the first line,
  while \<open>stat\<close> reports the whole file.
\<close>

definition two_lines :: string where
  "two_lines = hello_line @ [CHR 0x0A] @ reply_line @ [CHR 0x0A]"

definition failing_snapshot :: fs_snapshot where
  "failing_snapshot =
     \<lparr>walk = [(''demo'', log_file)],
      files = (\<lambda>p. \<lparr>contents = two_lines, read_error_after = Some 83,
                      stat_size = Some (length two_lines)\<rparr>)\<rparr>"

text \<open>Two assistant records without \<open>uuid\<close>.\<close>

definition anonymous_lines :: string where
  \<open>anonymous_lines =
     ''{"type":"assistant","message":{"content":[{"type":"text","text":"one"}]}}'' @ [CHR 0x0A] @
     ''{"type":"assistant","message":{"content":[{"type":"text","text":"two"}]}}'' @ [CHR 0x0A]\<close>

text \<open>Two assistant records whose \<open>uuid\<close> is an empty object.\<close>

definition object_uuid_lines :: string where
  \<open>object_uuid_lines =
     ''{"type":"assistant","message":{"content":[{"type":"text","text":"one"}]},"uuid":{}}'' @ [CHR 0x0A] @
     ''{"type":"assistant","message":{"content":[{"type":"text","text":"two"}]},"uuid":{}}'' @ [CHR 0x0A]\<close>

text \<open>Two projects, found in the order \<open>zeta\<close>, \<open>alpha\<close>, with one file each.\<close>

definition zeta_file :: string where
  "zeta_file = ''/projects/zeta/session.jsonl''"

definition alpha_file :: string where
  "alpha_file = ''/projects/alpha/session.jsonl''"

definition two_projects :: "string \<Rightarrow> string \<Rightarrow> fs_snapshot" where
  "two_projects cz ca =
     \<lparr>walk = [(''zeta'', zeta_file), (''alpha'', alpha_file)],
      files = (\<lambda>p. if p = zeta_file then view cz else view ca)\<rparr>"

text \<open>
  A database with one conversation \<open>chat\<close> that has one header, of a user bubble whose
  text has blanks around it.
\<close>

definition greeting_db :: db_snapshot where
  \<open>greeting_db =
     \<lparr>db_opens = True,
      composer_rows = Some
        [(''composerData:c1'',
          ''{"name":"chat","fullConversationHeadersOnly":[{"bubbleId":"b1","type":1}]}'')],
      bubble_row = (\<lambda>b. if b = JStr ''b1'' then Some ''{"text":"  hi  "}'' else None)\<rparr>\<close>

definition chat :: conversation where
  "chat = \<lparr>c_id = JStr ''c1'', c_name = JStr ''chat'',
            c_headers = JArr [JObj [(''bubbleId'', JStr ''b1''), (''type'', JNum 1)]],
            c_lastUpdated = JUndefined\<rparr>"

text \<open>
  A database whose query returns the conversation \<open>zeta\<close> before the conversation
  \<open>alpha\<close>. In \<open>two_db\<close> each has a bubble of its own; in \<open>shared_db\<close> the header
  lists of both name the bubble \<open>b1\<close>.
\<close>

definition two_db :: db_snapshot where
  \<open>two_db =
     \<lparr>db_opens = True,
      composer_rows = Some
        [(''composerData:c1'',
          ''{"name":"zeta","fullConversationHeadersOnly":[{"bubbleId":"b1","type":1}]}''),
         (''composerData:c2'',
          ''{"name":"alpha","fullConversationHeadersOnly":[{"bubbleId":"b2","type":2}]}'')],
      bubble_row = (\<lambda>b. if b = JStr ''b1'' then Some ''{"text":"first"}''
                          else if b = JStr ''b2'' then Some ''{"text":"second"}'' else None)\<rparr>\<close>


text \<open>
  A database with one conversation whose only header has an empty array as \<open>bubbleId\<close>;
  the query for that bubble finds a row.
\<close>

definition array_db :: db_snapshot where
  \<open>array_db =
     \<lparr>db_opens = True,
      composer_rows = Some
        [(''composerData:c1'',
          ''{"name":"chat","fullConversationHeadersOnly":[{"bubbleId":[],"type":1}]}'')],
      bubble_row = (\<lambda>b. if b = JArr [] then Some ''{"text":"again"}'' else None)\<rparr>\<close>

definition array_chat :: conversation where
  "array_chat = \<lparr>c_id = JStr ''c1'', c_name = JStr ''chat'',
                  c_headers = JArr [JObj [(''bubbleId'', JArr []), (''type'', JNum 1)]],
                  c_lastUpdated = JUndefined\<rparr>"



definition zeta :: conversation where
  "zeta = \<lparr>c_id = JStr ''c1'', c_name = JStr ''zeta'',
            c_headers = JArr [JObj [(''bubbleId'', JStr ''b1''), (''type'', JNum 1)]],
            c_lastUpdated = JUndefined\<rparr>"

definition alpha :: conversation where
  "alpha = \<lparr>c_id = JStr ''c2'', c_name = JStr ''alpha'',
             c_headers = JArr [JObj [(''bubbleId'', JStr ''b2''), (''type'', JNum 2)]],
             c_lastUpdated = JUndefined\<rparr>"

section \<open>The log-file watcher: deduplication\<close>

lemma emissions_append: "emissions (xs @ ys) = emissions xs @ emissions ys"
  by (induction xs rule: emissions.induct) auto

lemma emissions_map_Emit: "emissions (map Emit xs) = xs"
  by (induction xs) auto

lemma sleeps_append: "sleeps (xs @ ys) = sleeps xs @ sleeps ys"
  by (induction xs rule: sleeps.induct) auto

lemma sleeps_map_Emit: "sleeps (map Emit xs) = []"
  by (induction xs) auto

lemma file_ids_append: "file_ids p (xs @ ys) = file_ids p xs @ file_ids p ys"
  by (simp add: file_ids_def)

lemma emit_loop_seen:
  "fst (emit_loop seen refs ms) = seen \<union> {i \<in> m_id ` set ms. primitive i}"
proof (induction ms arbitrary: seen refs)
  case Nil
  then show ?case by simp
next
  case (Cons a ms)
  show ?case
    using Cons.IH [of seen refs] Cons.IH [of "insert (m_id a) seen" refs]
      Cons.IH [of seen "insert (m_line a) refs"]
    by (cases "emit_loop (insert (m_id a) seen) refs ms";
        cases "emit_loop seen (insert (m_line a) refs) ms") auto
qed

lemma emit_loop_fresh:
  "m \<in> set (snd (emit_loop seen refs ms)) \<Longrightarrow>
     (primitive (m_id m) \<longrightarrow> m_id m \<notin> seen) \<and> m \<in> set ms"
proof (induction ms arbitrary: seen refs)
  case Nil
  then show ?case by simp
next
  case (Cons a ms)
  obtain s1 out1 where e1: "emit_loop (insert (m_id a) seen) refs ms = (s1, out1)"
    by (cases "emit_loop (insert (m_id a) seen) refs ms")
  obtain s2 out2 where e2: "emit_loop seen (insert (m_line a) refs) ms = (s2, out2)"
    by (cases "emit_loop seen (insert (m_line a) refs) ms")
  from Cons.prems e1 e2
  consider "m = a" "primitive (m_id a) \<longrightarrow> m_id a \<notin> seen"
    | "m \<in> set (snd (emit_loop seen refs ms))"
    | "m \<in> set (snd (emit_loop (insert (m_id a) seen) refs ms))"
    | "m \<in> set (snd (emit_loop seen (insert (m_line a) refs) ms))"
    by (auto split: if_splits)
  then show ?case
  proof cases
    case 1
    then show ?thesis by simp
  next
    case 2
    from Cons.IH [OF this] show ?thesis by simp
  next
    case 3
    from Cons.IH [OF this] show ?thesis by simp
  next
    case 4
    from Cons.IH [OF this] show ?thesis by simp
  qed
qed

lemma emit_loop_distinct:
  "distinct (filter primitive (map m_id (snd (emit_loop seen refs ms))))"
proof (induction ms arbitrary: seen refs)
  case Nil
  then show ?case by simp
next
  case (Cons a ms)
  obtain s1 out1 where e1: "emit_loop (insert (m_id a) seen) refs ms = (s1, out1)"
    by (cases "emit_loop (insert (m_id a) seen) refs ms")
  obtain s2 out2 where e2: "emit_loop seen (insert (m_line a) refs) ms = (s2, out2)"
    by (cases "emit_loop seen (insert (m_line a) refs) ms")
  have d1: "distinct (filter primitive (map m_id out1))"
    using Cons.IH [of "insert (m_id a) seen" refs] e1 by simp
  have d2: "distinct (filter primitive (map m_id out2))"
    using Cons.IH [of seen "insert (m_line a) refs"] e2 by simp
  have new: "m_id a \<notin> m_id ` set out1" if "primitive (m_id a)"
  proof
    assume "m_id a \<in> m_id ` set out1"
    then obtain m where m: "m \<in> set out1" "m_id m = m_id a" by auto
    with emit_loop_fresh [of m "insert (m_id a) seen" refs ms] e1 that show False by simp
  qed
  show ?case
    using Cons.IH [of seen refs] d1 d2 new e1 e2 by auto
qed

lemma emit_loop_subseq: "subseq (snd (emit_loop seen refs ms)) ms"
proof (induction ms arbitrary: seen refs)
  case Nil
  then show ?case by simp
next
  case (Cons a ms)
  show ?case
    using Cons.IH [of seen refs] Cons.IH [of "insert (m_id a) seen" refs]
      Cons.IH [of seen "insert (m_line a) refs"]
    by (cases "emit_loop (insert (m_id a) seen) refs ms";
        cases "emit_loop seen (insert (m_line a) refs) ms") auto
qed

lemma emit_new_seen: "fst (emit_new seen ms) = seen \<union> {i \<in> m_id ` set ms. primitive i}"
  by (simp add: emit_new_def emit_loop_seen)

lemma emit_new_fresh:
  "m \<in> set (snd (emit_new seen ms)) \<Longrightarrow>
     (primitive (m_id m) \<longrightarrow> m_id m \<notin> seen) \<and> m \<in> set ms"
  unfolding emit_new_def by (rule emit_loop_fresh)

lemma emit_new_distinct: "distinct (filter primitive (map m_id (snd (emit_new seen ms))))"
  by (simp add: emit_new_def emit_loop_distinct)

lemma emit_new_subseq: "subseq (snd (emit_new seen ms)) ms"
  by (simp add: emit_new_def emit_loop_subseq)

lemma seenResponses_update_position [simp]:
  "seenResponses (update_position fv p s) = seenResponses s"
  by (simp add: update_position_def split: option.splits)

lemma filePositions_update_position:
  "filePositions (update_position fv p s) =
     (case stat_size fv of None \<Rightarrow> filePositions s | Some n \<Rightarrow> (filePositions s)(p \<mapsto> n))"
  by (simp add: update_position_def split: option.splits)

lemma seen_of_update_position [simp]: "seen_of (update_position fv p s) q = seen_of s q"
  by (simp add: seen_of_def)

lemma visit_file_first_sight:
  assumes "filePositions s fp = None"
  shows "visit_file parse fs project s fp = (update_position (fs fp) fp s, [])"
  using assms by (simp add: visit_file_def)

lemma visit_file_known:
  assumes "filePositions s fp = Some lastPos"
  shows "snd (visit_file parse fs project s fp) =
           map (Emitted project fp)
             (snd (emit_new (seen_of s fp) (extractAllMessages parse (fs fp) lastPos)))"
    and "seenResponses (fst (visit_file parse fs project s fp)) =
           (seenResponses s)(fp \<mapsto> fst (emit_new (seen_of s fp) (extractAllMessages parse (fs fp) lastPos)))"
    and "filePositions (fst (visit_file parse fs project s fp)) =
           filePositions (update_position (fs fp) fp s)"
  using assms
  by (simp_all add: visit_file_def Let_def seen_of_def split: prod.splits)

lemma visit_file_positions:
  "filePositions (fst (visit_file parse fs project s fp)) =
     filePositions (update_position (fs fp) fp s)"
  by (cases "filePositions s fp") (simp_all add: visit_file_first_sight visit_file_known)

lemma file_ids_Emitted:
  "file_ids p (map (Emitted project fp) ms) = (if p = fp then map m_id ms else [])"
  by (induction ms) (auto simp: file_ids_def)

lemma visit_file_inv:
  assumes inv: "watch_inv s out"
    and v: "visit_file parse fs project s fp = (s', new)"
  shows "watch_inv s' (out @ new)"
proof (cases "filePositions s fp")
  case None
  with v have "s' = update_position (fs fp) fp s" "new = []"
    by (simp_all add: visit_file_first_sight)
  with inv show ?thesis by (simp add: watch_inv_def)
next
  case (Some lastPos)
  let ?ms = "extractAllMessages parse (fs fp) lastPos"
  let ?r = "emit_new (seen_of s fp) ?ms"
  from visit_file_known [OF Some, of parse fs project] v
  have new: "new = map (Emitted project fp) (snd ?r)"
    and seen: "seenResponses s' = (seenResponses s)(fp \<mapsto> fst ?r)"
    by simp_all
  show ?thesis
    unfolding watch_inv_def
  proof (intro allI conjI)
    fix p
    show "distinct (filter primitive (file_ids p (out @ new)))"
    proof (cases "p = fp")
      case True
      have "set (filter primitive (file_ids fp out)) \<inter>
          set (filter primitive (map m_id (snd ?r))) = {}"
      proof -
        have "\<And>m. m \<in> set (snd ?r) \<Longrightarrow> primitive (m_id m) \<Longrightarrow>
            m_id m \<notin> set (filter primitive (file_ids fp out))"
          using emit_new_fresh [of _ "seen_of s fp" ?ms] inv
          by (auto simp: watch_inv_def)
        then show ?thesis by auto
      qed
      with inv True show ?thesis
        by (simp add: file_ids_append new file_ids_Emitted watch_inv_def emit_new_distinct)
    next
      case False
      with inv show ?thesis
        by (simp add: file_ids_append new file_ids_Emitted watch_inv_def)
    qed
    show "set (filter primitive (file_ids p (out @ new))) \<subseteq> seen_of s' p"
    proof (cases "p = fp")
      case True
      have "seen_of s' fp = seen_of s fp \<union> {i \<in> m_id ` set ?ms. primitive i}"
        by (simp add: seen_of_def seen emit_new_seen)
      moreover have "set (snd ?r) \<subseteq> set ?ms"
        using emit_new_fresh [of _ "seen_of s fp" ?ms] by auto
      ultimately show ?thesis
        using inv True
        by (auto simp: file_ids_append new file_ids_Emitted watch_inv_def)
    next
      case False
      then have "seen_of s' p = seen_of s p"
        by (simp add: seen_of_def seen)
      with inv False show ?thesis
        by (simp add: file_ids_append new file_ids_Emitted watch_inv_def)
    qed
  qed
qed

text \<open>Lifting a property of the visits to the loops.\<close>

lemma visit_files_lift:
  assumes step: "\<And>s out fp s' new. I s out \<Longrightarrow> visit_file parse fs project s fp = (s', new) \<Longrightarrow> I s' (out @ new)"
  shows "I s out \<Longrightarrow> visit_files parse fs project s fps = (s', new) \<Longrightarrow> I s' (out @ new)"
proof (induction fps arbitrary: s out s' new)
  case Nil
  then show ?case by simp
next
  case (Cons fp fps)
  obtain s1 out1 where v1: "visit_file parse fs project s fp = (s1, out1)"
    by (cases "visit_file parse fs project s fp")
  obtain s2 out2 where v2: "visit_files parse fs project s1 fps = (s2, out2)"
    by (cases "visit_files parse fs project s1 fps")
  from Cons.prems(2) v1 v2 have eq: "s' = s2" "new = out1 @ out2" by simp_all
  from step [OF Cons.prems(1) v1] have "I s1 (out @ out1)" .
  from Cons.IH [OF this v2] show ?case by (simp add: eq)
qed

lemma visit_projects_lift:
  assumes step: "\<And>project s out fp s' new. I s out \<Longrightarrow> visit_file parse fs project s fp = (s', new) \<Longrightarrow> I s' (out @ new)"
  shows "I s out \<Longrightarrow> visit_projects parse fs convFiles s ps = (s', new) \<Longrightarrow> I s' (out @ new)"
proof (induction ps arbitrary: s out s' new)
  case Nil
  then show ?case by simp
next
  case (Cons pr ps)
  let ?fps = "case map_of convFiles pr of None \<Rightarrow> [] | Some fps \<Rightarrow> fps"
  obtain s1 out1 where v1: "visit_files parse fs pr s ?fps = (s1, out1)"
    by (cases "visit_files parse fs pr s ?fps")
  obtain s2 out2 where v2: "visit_projects parse fs convFiles s1 ps = (s2, out2)"
    by (cases "visit_projects parse fs convFiles s1 ps")
  from Cons.prems(2) v1 v2 have eq: "s' = s2" "new = out1 @ out2" by simp_all
  have "I s1 (out @ out1)"
    by (rule visit_files_lift [where I = I, OF step Cons.prems(1) v1])
  from Cons.IH [OF this v2] show ?case by (simp add: eq)
qed

lemma tick_lift:
  assumes step: "\<And>project s out fp s' new. I s out \<Longrightarrow> visit_file parse (files env) project s fp = (s', new) \<Longrightarrow> I s' (out @ new)"
    and load: "\<And>s out. I s out \<Longrightarrow> I (s\<lparr>initialLoad := False\<rparr>) out"
  shows "I s out \<Longrightarrow> tick parse pf env s = (s', new) \<Longrightarrow> I s' (out @ new)"
  unfolding tick_def Let_def
  by (rule visit_projects_lift [where I = I, OF step]) (auto intro: load)

lemma watch_lift:
  assumes step: "\<And>env project s out fp s' new. env \<in> set envs \<Longrightarrow> I s out \<Longrightarrow> visit_file parse (files env) project s fp = (s', new) \<Longrightarrow> I s' (out @ new)"
    and load: "\<And>s out. I s out \<Longrightarrow> I (s\<lparr>initialLoad := False\<rparr>) out"
  shows "I s out \<Longrightarrow> watchConversations parse pf envs s = (s', evs) \<Longrightarrow> I s' (out @ emissions evs)"
  using step
proof (induction envs arbitrary: s out s' evs)
  case Nil
  then show ?case by simp
next
  case (Cons env envs)
  obtain s1 out1 where t: "tick parse pf env s = (s1, out1)"
    by (cases "tick parse pf env s")
  obtain s2 evs2 where w: "watchConversations parse pf envs s1 = (s2, evs2)"
    by (cases "watchConversations parse pf envs s1")
  from Cons.prems(2) t w have eq: "s' = s2" "evs = map Emit out1 @ Sleep poll_interval_ms # evs2"
    by simp_all
  have step': "I sb (outa @ newa)"
    if "e \<in> set envs" "I sa outa" "visit_file parse (files e) project sa fp = (sb, newa)"
    for e project sa outa fp sb newa
    by (rule Cons.prems(3) [OF _ that(2) that(3)]) (simp add: that(1))
  have "I s1 (out @ out1)"
    by (rule tick_lift [where I = I, OF _ load Cons.prems(1) t]) (rule Cons.prems(3), simp_all)
  from Cons.IH [OF this w step'] show ?case
    by (simp add: eq emissions_append emissions_map_Emit)
qed

lemma watch_inv_init: "watch_inv init_state []"
  by (simp add: watch_inv_def file_ids_def)

lemma watch_inv_run:
  assumes "watchConversations parse pf envs init_state = (s', evs)"
  shows "watch_inv s' (emissions evs)"
proof -
  have "watch_inv s' ([] @ emissions evs)"
  proof (rule watch_lift [where I = watch_inv, OF _ _ watch_inv_init assms])
    show "\<And>env project s out fp s' new. watch_inv s out \<Longrightarrow>
            visit_file parse (files env) project s fp = (s', new) \<Longrightarrow> watch_inv s' (out @ new)"
      by (rule visit_file_inv)
    show "\<And>s out. watch_inv s out \<Longrightarrow> watch_inv (s\<lparr>initialLoad := False\<rparr>) out"
      by (simp add: watch_inv_def seen_of_def)
  qed
  then show ?thesis by simp
qed

section \<open>The log-file watcher: the order of the visits\<close>

lemma visit_pairs_append:
  "visit_pairs parse fs s (xs @ ys) =
     (case visit_pairs parse fs s xs of
        (s1, out1) \<Rightarrow>
          (case visit_pairs parse fs s1 ys of (s2, out2) \<Rightarrow> (s2, out1 @ out2)))"
proof (induction xs arbitrary: s)
  case Nil
  then show ?case by (simp split: prod.splits)
next
  case (Cons x xs)
  obtain project fp where x: "x = (project, fp)" by (cases x)
  obtain s1 out1 where v: "visit_file parse fs project s fp = (s1, out1)"
    by (cases "visit_file parse fs project s fp")
  show ?case
    using Cons.IH [of s1] by (simp add: x v split: prod.splits)
qed

lemma visit_files_pairs:
  "visit_files parse fs project s fps = visit_pairs parse fs s (map (Pair project) fps)"
proof (induction fps arbitrary: s)
  case Nil
  then show ?case by simp
next
  case (Cons fp fps)
  obtain s1 out1 where v: "visit_file parse fs project s fp = (s1, out1)"
    by (cases "visit_file parse fs project s fp")
  show ?case using Cons.IH [of s1] by (simp add: v)
qed

lemma visit_projects_pairs:
  "visit_projects parse fs convFiles s ps =
     visit_pairs parse fs s (concat (map (\<lambda>project. map (Pair project) (files_of convFiles project)) ps))"
proof (induction ps arbitrary: s)
  case Nil
  then show ?case by simp
next
  case (Cons pr ps)
  obtain s1 out1 where v: "visit_pairs parse fs s (map (Pair pr) (files_of convFiles pr)) = (s1, out1)"
    by (cases "visit_pairs parse fs s (map (Pair pr) (files_of convFiles pr))")
  have "visit_files parse fs pr s (case map_of convFiles pr of None \<Rightarrow> [] | Some fps \<Rightarrow> fps) = (s1, out1)"
    using v by (simp add: visit_files_pairs files_of_def)
  then show ?case
    using Cons.IH [of s1] v by (simp add: visit_pairs_append)
qed

lemma tick_pairs:
  "tick parse pf env s = visit_pairs parse (files env) (tick_start pf env s) (tick_order pf env)"
  by (simp add: tick_def tick_order_def tick_start_def Let_def visit_projects_pairs)

lemma tick_start_fields [simp]:
  "filePositions (tick_start pf env s) = filePositions s"
  "seenResponses (tick_start pf env s) = seenResponses s"
  by (simp_all add: tick_start_def)

lemma visit_pairs_positions:
  "filePositions (fst (visit_pairs parse fs s xs)) p =
     (if p \<in> snd ` set xs
      then (case stat_size (fs p) of None \<Rightarrow> filePositions s p | Some n \<Rightarrow> Some n)
      else filePositions s p)"
proof (induction xs arbitrary: s)
  case Nil
  then show ?case by simp
next
  case (Cons x xs)
  obtain project fp where x: "x = (project, fp)" by (cases x)
  obtain s1 out1 where v: "visit_file parse fs project s fp = (s1, out1)"
    by (cases "visit_file parse fs project s fp")
  have p1: "filePositions s1 = filePositions (update_position (fs fp) fp s)"
    using visit_file_positions [of parse fs project s fp] v by simp
  obtain s2 out2 where v2: "visit_pairs parse fs s1 xs = (s2, out2)"
    by (cases "visit_pairs parse fs s1 xs")
  show ?case
    using Cons.IH [of s1] v v2
    by (auto simp: x p1 filePositions_update_position split: option.splits)
qed

subsection \<open>The map built by findConversationFiles\<close>

lemma map_of_map_push:
  "map_of (map_push parent p m) k =
     (if k = parent then Some (files_of m parent @ [p]) else map_of m k)"
proof (cases "parent \<in> fst ` set m")
  case True
  have upd: "map_of (map (\<lambda>(k', v). if k' = parent then (k', v @ [p]) else (k', v)) m) k =
               (if k = parent then map_option (\<lambda>v. v @ [p]) (map_of m k) else map_of m k)"
    by (induction m) auto
  from True obtain v where "map_of m parent = Some v"
    by (metis domD dom_map_of_conv_image_fst)
  with True upd show ?thesis by (simp add: map_push_def files_of_def)
next
  case False
  then have "map_of m parent = None" by (simp add: map_of_eq_None_iff)
  with False show ?thesis
    by (auto simp: map_push_def files_of_def map_add_def split: option.splits)
qed

lemma files_of_map_push:
  "files_of (map_push parent p m) k = (if k = parent then files_of m k @ [p] else files_of m k)"
  by (simp add: files_of_def [of "map_push parent p m"] map_of_map_push) (simp add: files_of_def)

lemma keys_map_push:
  "map fst (map_push parent p m) = (if parent \<in> fst ` set m then map fst m else map fst m @ [parent])"
proof -
  have "map fst (map (\<lambda>(k', v). if k' = parent then (k', v @ [p]) else (k', v)) m) = map fst m"
    by (induction m) auto
  then show ?thesis by (simp add: map_push_def)
qed

lemma distinct_map_push: "distinct (map fst m) \<Longrightarrow> distinct (map fst (map_push parent p m))"
  by (simp add: keys_map_push)

lemma collect_files_props:
  "files_of (collect_files pf w m) k =
     files_of m k @ map snd (filter (\<lambda>x. fst x = k \<and> \<not> filtered_out pf (fst x)) w)"
  "fst ` set (collect_files pf w m) =
     fst ` set m \<union> fst ` {x \<in> set w. \<not> filtered_out pf (fst x)}"
  "distinct (map fst m) \<Longrightarrow> distinct (map fst (collect_files pf w m))"
proof (induction w arbitrary: m)
  case Nil
  {
    case 1 show ?case by simp
  next
    case 2 show ?case by simp
  next
    case 3 then show ?case by simp
  }
next
  case (Cons x w)
  obtain parent p where x: "x = (parent, p)" by (cases x)
  {
    case 1
    show ?case
      using Cons.IH(1) [of m] Cons.IH(1) [of "map_push parent p m"]
      by (auto simp: x files_of_map_push)
  next
    case 2
    have "fst ` set (map_push parent p m) = insert parent (fst ` set m)"
      using keys_map_push [of parent p m]
      by (metis (no_types, lifting) insert_absorb list.set_map list.simps(15) rotate1.simps(2) set_rotate1)
    then have push: "fst ` set (collect_files pf w (map_push parent p m)) =
        insert parent (fst ` set m) \<union> fst ` {x \<in> set w. \<not> filtered_out pf (fst x)}"
      using Cons.IH(2) [of "map_push parent p m"] by simp
    show ?case
    proof (cases "filtered_out pf parent")
      case True
      then have "{y \<in> set (x # w). \<not> filtered_out pf (fst y)} = {y \<in> set w. \<not> filtered_out pf (fst y)}"
        by (auto simp: x)
      with True Cons.IH(2) [of m] show ?thesis by (simp add: x)
    next
      case False
      then have "{y \<in> set (x # w). \<not> filtered_out pf (fst y)} = insert (parent, p) {y \<in> set w. \<not> filtered_out pf (fst y)}"
        by (auto simp: x)
      with False push show ?thesis by (simp add: x)
    qed
  next
    case 3
    then show ?case
      using Cons.IH(3) [of m] Cons.IH(3) [of "map_push parent p m"]
      by (simp add: x distinct_map_push)
  }
qed

lemma set_concat_pairs:
  "set (concat (map (\<lambda>k. map (Pair k) (f k)) ks)) = {(k, p). k \<in> set ks \<and> p \<in> set (f k)}"
  by auto

lemma distinct_concat_pairs:
  "distinct ks \<Longrightarrow> (\<And>k. distinct (f k)) \<Longrightarrow> distinct (concat (map (\<lambda>k. map (Pair k) (f k)) ks))"
proof (induction ks)
  case Nil
  then show ?case by simp
next
  case (Cons k ks)
  then have "distinct (map (Pair k) (f k))" by (simp add: distinct_map inj_on_def)
  with Cons show ?case by (auto simp: set_concat_pairs)
qed

lemma sorted_concat_pairs:
  "sorted ks \<Longrightarrow> sorted (map fst (concat (map (\<lambda>k. map (Pair k) (f k)) ks)))"
proof (induction ks)
  case Nil
  then show ?case by simp
next
  case (Cons k ks)
  have "map fst (map (Pair k) (f k)) = replicate (length (f k)) k"
    by (induction "f k") (auto simp: map_replicate_const comp_def)
  with Cons show ?case
    by (auto simp: sorted_append set_concat_pairs)
qed

lemma set_tick_order:
  "set (tick_order pf env) = {x \<in> set (walk env). \<not> filtered_out pf (fst x)}"
proof -
  let ?cf = "findConversationFiles pf (walk env)"
  have files: "files_of ?cf k = map snd (filter (\<lambda>x. fst x = k \<and> \<not> filtered_out pf (fst x)) (walk env))" for k
    using collect_files_props(1) [of pf "walk env" "[]" k]
    by (simp add: findConversationFiles_def files_of_def)
  have keys: "fst ` set ?cf = fst ` {x \<in> set (walk env). \<not> filtered_out pf (fst x)}"
    using collect_files_props(2) [of pf "walk env" "[]"]
    by (simp add: findConversationFiles_def)
  have "set (tick_order pf env) = {(k, p). k \<in> fst ` set ?cf \<and> p \<in> set (files_of ?cf k)}"
    by (simp add: tick_order_def Let_def set_concat_pairs del: set_concat)
  also have "\<dots> = {x \<in> set (walk env). \<not> filtered_out pf (fst x)}"
    unfolding keys files by force
  finally show ?thesis .
qed

lemma sorted_tick_order: "sorted (map fst (tick_order pf env))"
  by (simp add: tick_order_def Let_def sorted_concat_pairs del: map_concat)

lemma distinct_tick_order:
  assumes "distinct (map snd (walk env))"
  shows "distinct (map snd (tick_order pf env))"
proof -
  let ?cf = "findConversationFiles pf (walk env)"
  have files: "files_of ?cf k = map snd (filter (\<lambda>x. fst x = k \<and> \<not> filtered_out pf (fst x)) (walk env))" for k
    using collect_files_props(1) [of pf "walk env" "[]" k]
    by (simp add: findConversationFiles_def files_of_def)
  have dk: "distinct (sort (map fst ?cf))"
    using collect_files_props(3) [of "[]" pf "walk env"]
    by (simp add: findConversationFiles_def)
  have df: "distinct (files_of ?cf k)" for k
    unfolding files using assms by (simp add: distinct_map_filter)
  have d: "distinct (tick_order pf env)"
    unfolding tick_order_def Let_def by (rule distinct_concat_pairs [OF dk df])
  have "inj_on snd (set (walk env))"
    using assms by (simp add: distinct_map)
  then have "inj_on snd (set (tick_order pf env))"
    by (rule inj_on_subset) (auto simp: set_tick_order)
  with d show ?thesis by (simp add: distinct_map)
qed

section \<open>The key-value watcher: deduplication and scan order\<close>

lemma get_None_iff: "get v k = None \<longleftrightarrow> v = JUndefined \<or> v = JNull"
  by (cases v) simp_all

lemma get_None_indep: "get v k = None \<Longrightarrow> get v k' = None"
  by (simp add: get_None_iff)

lemma prim_ids_simps [simp]:
  "prim_ids [] = {}"
  "prim_ids ((c, b) # ps) = (if primitive b then insert b (prim_ids ps) else prim_ids ps)"
  "prim_ids (ps @ qs) = prim_ids ps \<union> prim_ids qs"
  by (auto simp: prim_ids_def)

lemma seen_add_union: "seen_add seen b \<union> S = (if primitive b then insert b (seen \<union> S) else seen \<union> S)"
  by (simp add: seen_add_def)

lemma seen_has_absorb: "seen_has seen b \<Longrightarrow> seen \<union> prim_ids ((c, b) # ps) = seen \<union> prim_ids ps"
  by (auto simp: seen_has_def)

lemma bubble_output_pairs:
  "map pair_of (bubble_output parse lookup c b t) = filter (resolves parse lookup) [(c, b)]"
  by (simp add: bubble_output_def pair_of_def resolves_def split: option.splits)

lemma visit_header_None:
  "get h ''bubbleId'' = None \<Longrightarrow> visit_header parse lookup c seen h = None"
  by (simp add: visit_header_def get_None_indep [of h "''bubbleId''" "''type''"])

lemma visit_header_Some:
  assumes "get h ''bubbleId'' = Some b"
  shows "\<exists>out. visit_header parse lookup c seen h = Some (seen \<union> prim_ids [(c, b)], out) \<and>
               map pair_of out = filter (resolves parse lookup) (first_scans seen [(c, b)])"
proof -
  from assms obtain t where t: "get h ''type'' = Some t"
    by (cases "get h ''type''") (auto simp: get_None_iff)
  show ?thesis
    using assms t bubble_output_pairs [of parse lookup c b t]
    by (auto simp: visit_header_def seen_has_def seen_add_def insert_absorb)
qed

lemma first_scans_append:
  "first_scans seen (ps @ qs) = first_scans seen ps @ first_scans (seen \<union> prim_ids ps) qs"
proof (induction ps arbitrary: seen)
  case Nil
  then show ?case by simp
next
  case (Cons p ps)
  obtain c b where p: "p = (c, b)" by (cases p)
  show ?case
  proof (cases "seen_has seen b")
    case True
    then have "seen \<union> prim_ids (p # ps) = seen \<union> prim_ids ps"
      unfolding p by (rule seen_has_absorb)
    with True Cons.IH [of seen] show ?thesis by (simp add: p del: prim_ids_simps)
  next
    case False
    have "seen_add seen b \<union> prim_ids ps = seen \<union> prim_ids (p # ps)"
      by (auto simp: p seen_add_def)
    with False Cons.IH [of "seen_add seen b"] show ?thesis by (simp add: p del: prim_ids_simps)
  qed
qed

lemma visit_headers_scan:
  assumes "visit_headers parse lookup c seen hs = (seen', out, fin)"
  shows "seen' = seen \<union> prim_ids (fst (scanned_headers c hs)) \<and>
         fin = snd (scanned_headers c hs) \<and>
         map pair_of out = filter (resolves parse lookup) (first_scans seen (fst (scanned_headers c hs)))"
  using assms
proof (induction hs arbitrary: seen seen' out fin)
  case Nil
  then show ?case by simp
next
  case (Cons h hs)
  show ?case
  proof (cases "get h ''bubbleId''")
    case None
    with Cons.prems show ?thesis
      by (simp add: visit_header_None)
  next
    case (Some b)
    let ?seen1 = "seen \<union> prim_ids [(c, b)]"
    from visit_header_Some [OF Some, of parse lookup c seen]
    obtain out1 where v1: "visit_header parse lookup c seen h = Some (?seen1, out1)"
      and s1: "map pair_of out1 = filter (resolves parse lookup) (first_scans seen [(c, b)])"
      by blast
    obtain seen2 out2 fin2 where v2: "visit_headers parse lookup c ?seen1 hs = (seen2, out2, fin2)"
      by (cases "visit_headers parse lookup c ?seen1 hs") auto
    obtain ps pfin where sc: "scanned_headers c hs = (ps, pfin)"
      by (cases "scanned_headers c hs")
    from Cons.IH [OF v2] sc
    have ih: "seen2 = ?seen1 \<union> prim_ids ps" "fin2 = pfin"
      "map pair_of out2 = filter (resolves parse lookup) (first_scans ?seen1 ps)"
      by simp_all
    from Cons.prems v1 v2 have eq: "seen' = seen2" "out = out1 @ out2" "fin = fin2"
      by simp_all
    have app: "first_scans seen ((c, b) # ps) = first_scans seen [(c, b)] @ first_scans ?seen1 ps"
      using first_scans_append [of seen "[(c, b)]" ps] by simp
    have "map pair_of (out1 @ out2) = filter (resolves parse lookup) (first_scans seen ((c, b) # ps))"
      unfolding app using s1 ih(3) by simp
    moreover have "seen2 = seen \<union> prim_ids ((c, b) # ps)"
      using ih(1) by auto
    ultimately show ?thesis
      using Some sc ih(2) eq by (simp del: first_scans.simps prim_ids_simps)
  qed
qed

lemma visit_conversations_scan:
  assumes "visit_conversations parse lookup pf seen cs = (seen', out, fin)"
  shows "seen' = seen \<union> prim_ids (fst (scanned pf cs)) \<and>
         map pair_of out = filter (resolves parse lookup) (first_scans seen (fst (scanned pf cs)))"
  using assms
proof (induction cs arbitrary: seen seen' out fin)
  case Nil
  then show ?case by simp
next
  case (Cons c cs)
  show ?case
  proof (cases "conversation_skipped pf (c_name c)")
    case None
    with Cons.prems show ?thesis by simp
  next
    case (Some skip)
    show ?thesis
    proof (cases skip)
      case True
      with Some Cons.prems Cons.IH [of seen seen' out fin] show ?thesis by simp
    next
      case False
      show ?thesis
      proof (cases "iterate (c_headers c)")
        case None
        with Some False Cons.prems show ?thesis by simp
      next
        case hs: (Some hs)
        obtain seen1 out1 fin1 where v1: "visit_headers parse lookup c seen hs = (seen1, out1, fin1)"
          by (cases "visit_headers parse lookup c seen hs") auto
        obtain ps pfin where sc: "scanned_headers c hs = (ps, pfin)"
          by (cases "scanned_headers c hs")
        from visit_headers_scan [OF v1] sc
        have h1: "seen1 = seen \<union> prim_ids ps" "fin1 = pfin"
          "map pair_of out1 = filter (resolves parse lookup) (first_scans seen ps)"
          by simp_all
        show ?thesis
        proof (cases fin1)
          case fin: False
          with Some False hs v1 Cons.prems have "seen' = seen1" "out = out1" by simp_all
          with Some False hs sc h1 fin show ?thesis by simp
        next
          case fin: True
          obtain seen2 out2 fin2 where v2: "visit_conversations parse lookup pf seen1 cs = (seen2, out2, fin2)"
            by (cases "visit_conversations parse lookup pf seen1 cs") auto
          obtain qs qfin where sq: "scanned pf cs = (qs, qfin)"
            by (cases "scanned pf cs")
          from Cons.IH [OF v2] sq
          have h2: "seen2 = seen1 \<union> prim_ids qs"
            "map pair_of out2 = filter (resolves parse lookup) (first_scans seen1 qs)"
            by simp_all
          from Some False hs v1 v2 fin Cons.prems have eq: "seen' = seen2" "out = out1 @ out2"
            by simp_all
          have "map pair_of (out1 @ out2) = filter (resolves parse lookup) (first_scans seen (ps @ qs))"
            using h1(3) h2(2) h1(1) by (simp add: first_scans_append)
          then show ?thesis
            using Some False hs sc sq h1 h2 eq fin by (auto simp: Un_assoc)
        qed
      qed
    qed
  qed
qed

lemma cursor_tick_scan:
  assumes "cursor_tick parse pf db s = (s', out)"
  shows "seenBubbles s' = seenBubbles s \<union> prim_ids (tick_scan parse pf db) \<and>
         map pair_of out =
           filter (resolves parse (bubble_row db)) (first_scans (seenBubbles s) (tick_scan parse pf db))"
proof (cases "db_opens db")
  case False
  with assms show ?thesis by (simp add: cursor_tick_def tick_scan_def)
next
  case True
  let ?cs = "loadConversations parse db"
  obtain seen' out' fin where v: "visit_conversations parse (bubble_row db) pf (seenBubbles s) ?cs = (seen', out', fin)"
    by (cases "visit_conversations parse (bubble_row db) pf (seenBubbles s) ?cs") auto
  with assms True have "seenBubbles s' = seen'" "out = out'"
    by (auto simp: cursor_tick_def Let_def)
  with visit_conversations_scan [OF v] True show ?thesis
    by (simp add: tick_scan_def)
qed

lemma watch_cursor_scan:
  assumes "watchCursorConversations parse pf dbs s = (s', evs)"
  shows "seenBubbles s' = seenBubbles s \<union> prim_ids (run_scan parse pf dbs) \<and>
         subseq (map pair_of (emissions evs)) (first_scans (seenBubbles s) (run_scan parse pf dbs))"
  using assms
proof (induction dbs arbitrary: s s' evs)
  case Nil
  then show ?case by (simp add: run_scan_def)
next
  case (Cons db dbs)
  obtain s1 out1 where t: "cursor_tick parse pf db s = (s1, out1)"
    by (cases "cursor_tick parse pf db s")
  obtain s2 evs2 where w: "watchCursorConversations parse pf dbs s1 = (s2, evs2)"
    by (cases "watchCursorConversations parse pf dbs s1")
  from Cons.prems t w have eq: "s' = s2" "evs = map Emit out1 @ Sleep cursor_poll_interval_ms # evs2"
    by simp_all
  have rs: "run_scan parse pf (db # dbs) = tick_scan parse pf db @ run_scan parse pf dbs"
    by (simp add: run_scan_def)
  from cursor_tick_scan [OF t]
  have "subseq (map pair_of out1) (first_scans (seenBubbles s) (tick_scan parse pf db))"
    by simp
  with cursor_tick_scan [OF t] Cons.IH [OF w]
  show ?case
    by (simp add: eq rs emissions_append emissions_map_Emit first_scans_append
          list_emb_append_mono Un_assoc)
qed

lemma first_scans_fresh:
  "(c, b) \<in> set (first_scans seen ps) \<Longrightarrow> primitive b \<Longrightarrow>
     b \<notin> seen \<and> (\<exists>pre post. ps = pre @ (c, b) # post \<and> b \<notin> snd ` set pre)"
proof (induction ps arbitrary: seen)
  case Nil
  then show ?case by simp
next
  case (Cons p ps)
  obtain c' b' where p: "p = (c', b')" by (cases p)
  show ?case
  proof (cases "seen_has seen b'")
    case True
    with Cons.prems p have "(c, b) \<in> set (first_scans seen ps)" by simp
    from Cons.IH [OF this Cons.prems(2)] obtain pre post where
      "b \<notin> seen" "ps = pre @ (c, b) # post" "b \<notin> snd ` set pre" by blast
    moreover from True \<open>b \<notin> seen\<close> have "b \<noteq> b'" by (auto simp: seen_has_def)
    ultimately have "p # ps = (p # pre) @ (c, b) # post \<and> b \<notin> snd ` set (p # pre)"
      using p by simp
    with \<open>b \<notin> seen\<close> show ?thesis by blast
  next
    case False
    with Cons.prems p have "(c, b) = (c', b') \<or> (c, b) \<in> set (first_scans (seen_add seen b') ps)"
      by auto
    then show ?thesis
    proof
      assume "(c, b) = (c', b')"
      with False p Cons.prems(2) have "b \<notin> seen" "p # ps = [] @ (c, b) # ps"
        by (simp_all add: seen_has_def)
      then show ?thesis by (metis empty_iff image_empty list.set(1))
    next
      assume "(c, b) \<in> set (first_scans (seen_add seen b') ps)"
      from Cons.IH [OF this Cons.prems(2)] obtain pre post where
        f: "b \<notin> seen_add seen b'" "ps = pre @ (c, b) # post" "b \<notin> snd ` set pre" by blast
      from f(1) Cons.prems(2) have "b \<notin> seen" "b \<noteq> b'"
        by (auto simp: seen_add_def split: if_splits)
      with f have "p # ps = (p # pre) @ (c, b) # post \<and> b \<notin> snd ` set (p # pre)"
        using p by simp
      with \<open>b \<notin> seen\<close> show ?thesis by blast
    qed
  qed
qed

lemma first_scans_distinct: "distinct (filter primitive (map snd (first_scans seen ps)))"
proof (induction ps arbitrary: seen)
  case Nil
  then show ?case by simp
next
  case (Cons p ps)
  obtain c b where p: "p = (c, b)" by (cases p)
  have "b \<notin> snd ` set (first_scans (seen_add seen b) ps)" if "primitive b"
    using first_scans_fresh [of _ b "seen_add seen b" ps] that
    by (force simp: seen_add_def)
  with Cons.IH [of seen] Cons.IH [of "seen_add seen b"] p show ?case by auto
qed

lemma subseq_distinct_map:
  assumes "subseq xs ys" "distinct (filter P (map f ys))"
  shows "distinct (filter P (map f xs))"
proof -
  from assms(1) have "subseq (map f xs) (map f ys)" by (rule subseq_map)
  then have "subseq (filter P (map f xs)) (filter P (map f ys))" by simp
  then have "filter P (map f xs) \<in> set (subseqs (filter P (map f ys)))" by simp
  with assms(2) show ?thesis by (rule subseqs_distinctD [rotated])
qed

lemma kv_distinct:
  assumes "watchCursorConversations parse pf dbs s = (s', evs)"
  shows "distinct (filter primitive (map k_bubble (emissions evs)))"
proof -
  let ?fs = "first_scans (seenBubbles s) (run_scan parse pf dbs)"
  from watch_cursor_scan [OF assms] have "subseq (map pair_of (emissions evs)) ?fs" by simp
  then have "distinct (filter primitive (map snd (map pair_of (emissions evs))))"
    using first_scans_distinct [of "seenBubbles s" "run_scan parse pf dbs"]
    by (rule subseq_distinct_map)
  then show ?thesis by (simp add: pair_of_def comp_def)
qed

lemma subseq_mem:
  assumes "subseq xs ys" "x \<in> set xs"
  shows "x \<in> set ys"
proof -
  from assms obtain y where "y \<in> set ys" "x = y" by (rule list_emb_set)
  then show ?thesis by simp
qed

section \<open>The log-file watcher: one file in a tick\<close>

lemma visit_file_events:
  "snd (visit_file parse fs project s fp) =
     (case filePositions s fp of
        None \<Rightarrow> []
      | Some lastPos \<Rightarrow>
          map (Emitted project fp)
            (snd (emit_new (seen_of s fp) (extractAllMessages parse (fs fp) lastPos))))"
  by (cases "filePositions s fp") (simp_all add: visit_file_first_sight visit_file_known)

lemma visit_file_project:
  "e \<in> set (snd (visit_file parse fs project s fp)) \<Longrightarrow> e_project e = project \<and> e_file e = fp"
  by (auto simp: visit_file_events split: option.splits)

lemma visit_file_other:
  assumes "p \<noteq> fp"
  shows "filePositions (fst (visit_file parse fs project s fp)) p = filePositions s p"
    and "seenResponses (fst (visit_file parse fs project s fp)) p = seenResponses s p"
    and "filter (\<lambda>e. e_file e = p) (snd (visit_file parse fs project s fp)) = []"
proof -
  show "filePositions (fst (visit_file parse fs project s fp)) p = filePositions s p"
    using assms by (simp add: visit_file_positions filePositions_update_position split: option.splits)
  show "seenResponses (fst (visit_file parse fs project s fp)) p = seenResponses s p"
    using assms
    by (cases "filePositions s fp") (simp_all add: visit_file_first_sight visit_file_known)
  show "filter (\<lambda>e. e_file e = p) (snd (visit_file parse fs project s fp)) = []"
    using assms visit_file_project [of _ parse fs project s fp]
    by (auto simp: filter_empty_conv)
qed

lemma visit_pairs_other:
  assumes "p \<notin> snd ` set xs"
  shows "filePositions (fst (visit_pairs parse fs s xs)) p = filePositions s p \<and>
         seenResponses (fst (visit_pairs parse fs s xs)) p = seenResponses s p \<and>
         filter (\<lambda>e. e_file e = p) (snd (visit_pairs parse fs s xs)) = []"
  using assms
proof (induction xs arbitrary: s)
  case Nil
  then show ?case by simp
next
  case (Cons x xs)
  obtain project fp where x: "x = (project, fp)" by (cases x)
  with Cons.prems have ne: "p \<noteq> fp" and rest: "p \<notin> snd ` set xs" by auto
  obtain s1 out1 where v: "visit_file parse fs project s fp = (s1, out1)"
    by (cases "visit_file parse fs project s fp")
  obtain s2 out2 where v2: "visit_pairs parse fs s1 xs = (s2, out2)"
    by (cases "visit_pairs parse fs s1 xs")
  from visit_file_other [OF ne, of parse fs project s] v
  have "filePositions s1 p = filePositions s p" "seenResponses s1 p = seenResponses s p"
    "filter (\<lambda>e. e_file e = p) out1 = []"
    by simp_all
  with Cons.IH [OF rest, of s1] v v2 show ?case by (simp add: x)
qed

lemma visit_pairs_once:
  assumes "distinct (map snd xs)" "(project, p) \<in> set xs"
  shows "filter (\<lambda>e. e_file e = p) (snd (visit_pairs parse fs s xs)) =
           snd (visit_file parse fs project s p)"
  using assms
proof (induction xs arbitrary: s)
  case Nil
  then show ?case by simp
next
  case (Cons x xs)
  obtain project' fp where x: "x = (project', fp)" by (cases x)
  obtain s1 out1 where v: "visit_file parse fs project' s fp = (s1, out1)"
    by (cases "visit_file parse fs project' s fp")
  obtain s2 out2 where v2: "visit_pairs parse fs s1 xs = (s2, out2)"
    by (cases "visit_pairs parse fs s1 xs")
  show ?case
  proof (cases "x = (project, p)")
    case True
    with Cons.prems(1) have "p \<notin> snd ` set xs" by auto
    from visit_pairs_other [OF this, of parse fs s1] v2
    have "filter (\<lambda>e. e_file e = p) out2 = []" by simp
    moreover have "filter (\<lambda>e. e_file e = p) out1 = out1"
      using v True x visit_file_project [of _ parse fs project' s fp]
      by (auto simp: filter_id_conv)
    ultimately show ?thesis using v v2 True x by simp
  next
    case False
    with Cons.prems have mem: "(project, p) \<in> set xs" and d: "distinct (map snd xs)" by auto
    from mem Cons.prems(1) x have ne: "p \<noteq> fp" by force
    from visit_file_other [OF ne, of parse fs project' s] v
    have same: "filePositions s1 p = filePositions s p" "seenResponses s1 p = seenResponses s p"
      and none: "filter (\<lambda>e. e_file e = p) out1 = []"
      by simp_all
    have "seen_of s1 p = seen_of s p"
      using same by (simp add: seen_of_def)
    with same have "snd (visit_file parse fs project s1 p) = snd (visit_file parse fs project s p)"
      by (simp add: visit_file_events split: option.splits)
    with Cons.IH [OF d mem, of s1] v v2 none show ?thesis by (simp add: x)
  qed
qed

lemma visit_pairs_project:
  "e \<in> set (snd (visit_pairs parse fs s xs)) \<Longrightarrow> (e_project e, e_file e) \<in> set xs"
proof (induction xs arbitrary: s)
  case Nil
  then show ?case by simp
next
  case (Cons x xs)
  obtain project fp where x: "x = (project, fp)" by (cases x)
  obtain s1 out1 where v: "visit_file parse fs project s fp = (s1, out1)"
    by (cases "visit_file parse fs project s fp")
  obtain s2 out2 where v2: "visit_pairs parse fs s1 xs = (s2, out2)"
    by (cases "visit_pairs parse fs s1 xs")
  from Cons.prems v v2 x have "e \<in> set out1 \<or> e \<in> set out2" by simp
  then show ?case
  proof
    assume "e \<in> set out1"
    with visit_file_project [of e parse fs project s fp] v x show ?thesis by simp
  next
    assume "e \<in> set out2"
    with Cons.IH [of s1] v2 show ?thesis by simp
  qed
qed

lemma visit_pairs_sorted:
  assumes "sorted (map fst xs)"
  shows "sorted (map e_project (snd (visit_pairs parse fs s xs)))"
  using assms
proof (induction xs arbitrary: s)
  case Nil
  then show ?case by simp
next
  case (Cons x xs)
  obtain project fp where x: "x = (project, fp)" by (cases x)
  obtain s1 out1 where v: "visit_file parse fs project s fp = (s1, out1)"
    by (cases "visit_file parse fs project s fp")
  obtain s2 out2 where v2: "visit_pairs parse fs s1 xs = (s2, out2)"
    by (cases "visit_pairs parse fs s1 xs")
  have a: "\<forall>e \<in> set out1. e_project e = project"
    using visit_file_project [of _ parse fs project s fp] v by simp
  then have "map e_project out1 = replicate (length out1) project"
    by (simp add: map_replicate_const [symmetric] cong: map_cong)
  then have s1: "sorted (map e_project out1)" by (simp add: sorted_replicate)
  have b: "\<forall>e \<in> set out2. project \<le> e_project e"
  proof
    fix e assume "e \<in> set out2"
    with visit_pairs_project [of e parse fs s1 xs] v2 have "e_project e \<in> fst ` set xs" by force
    with Cons.prems x show "project \<le> e_project e" by auto
  qed
  from Cons.IH [of s1] Cons.prems v2 have s2: "sorted (map e_project out2)" by simp
  from s1 s2 a b show ?case
    using v v2 by (auto simp: x sorted_append)
qed


section \<open>The log-file watcher: the text of a message\<close>









lemma push_items_all:
  assumes "\<And>item ms m. f item = Some ms \<Longrightarrow> m \<in> set ms \<Longrightarrow> P m"
  shows "m \<in> set (push_items f items) \<Longrightarrow> P m"
proof (induction items)
  case Nil
  then show ?case by simp
next
  case (Cons item items)
  then show ?case
    using assms by (cases "f item") auto
qed

lemma content_messages_all:
  assumes "\<And>item ms m. f item = Some ms \<Longrightarrow> m \<in> set ms \<Longrightarrow> P m"
  shows "m \<in> set (content_messages f msg) \<Longrightarrow> P m"
  using push_items_all [of f P m, OF assms]
  by (auto simp: content_messages_def split: option.splits)


lemma lines_messages_append:
  "lines_messages parse k (a @ b) = lines_messages parse k a @ lines_messages parse (k + length a) b"
  by (induction a arbitrary: k) simp_all






section \<open>The key-value watcher: the text of an emission\<close>







section \<open>Lines of a stream\<close>

lemma scan_lines_no_newline:
  "\<forall>c \<in> set s. c \<noteq> CHR 0x0A \<and> c \<noteq> CHR 0x0D \<Longrightarrow> scan_lines cur s = ([], cur @ s)"
  by (induction cur s rule: scan_lines.induct) auto

lemma scan_lines_line:
  "\<forall>c \<in> set s. c \<noteq> CHR 0x0A \<and> c \<noteq> CHR 0x0D \<Longrightarrow> scan_lines cur (s @ [CHR 0x0A]) = ([cur @ s], [])"
proof (induction cur s rule: scan_lines.induct)
  case (1 cur)
  then show ?case by simp
next
  case (2 cur c)
  then show ?case by simp
next
  case (3 cur c d ds)
  then show ?case by simp
qed

lemma scan_lines_after_newline:
  assumes "a \<noteq> []" "last a = CHR 0x0A"
  shows "scan_lines cur (a @ b) = (fst (scan_lines cur a) @ fst (scan_lines [] b), snd (scan_lines [] b))"
  using assms
proof (induction cur a rule: scan_lines.induct)
  case (1 cur)
  then show ?case by simp
next
  case (2 cur c)
  then show ?case by (cases b) (auto split: prod.splits)
next
  case (3 cur c d ds)
  show ?case
  proof (cases "c = CHR 0x0D \<and> d = CHR 0x0A")
    case True
    show ?thesis
    proof (cases "ds = []")
      case ds: True
      with True show ?thesis by (auto split: prod.splits)
    next
      case ds: False
      with "3.prems" have "last ds = CHR 0x0A" by simp
      from "3.IH"(1) [OF True ds this] True show ?thesis
        by (auto split: prod.splits)
    qed
  next
    case False
    from "3.prems" have l: "last (d # ds) = CHR 0x0A" by simp
    show ?thesis
    proof (cases "c = CHR 0x0D \<or> c = CHR 0x0A")
      case True
      from "3.IH"(2) [OF False True _ l] False True show ?thesis
        by (auto split: prod.splits)
    next
      case nl: False
      from "3.IH"(3) [OF False nl _ l] False nl show ?thesis
        by (auto split: prod.splits)
    qed
  qed
qed

lemma scan_lines_partial:
  assumes "a = [] \<or> last a = CHR 0x0A"
    and "\<forall>c \<in> set part. c \<noteq> CHR 0x0A \<and> c \<noteq> CHR 0x0D"
  shows "scan_lines [] (a @ part) = (fst (scan_lines [] a), part)"
proof (cases "a = []")
  case True
  with assms(2) show ?thesis by (simp add: scan_lines_no_newline)
next
  case False
  with assms(1) have "last a = CHR 0x0A" by simp
  from scan_lines_after_newline [OF False this, of "[]" part] assms(2)
  show ?thesis by (simp add: scan_lines_no_newline)
qed

section \<open>Evaluating the examples\<close>

lemmas parse_defs = json_parse_def skip_ws_def json_space_def unescape_def is_digit_def
  parse_number_def digits_value_def

lemmas record_defs = line_messages_def process_record_def content_messages_def js_or_def
  user_item_def assistant_item_def mk_message_def js_trim_def js_space_def

lemma length_hello_line: "length hello_line = 82"
  by (simp add: hello_line_def)

lemma length_hello_prefix: "length hello_prefix = 20"
  by (simp add: hello_prefix_def)

lemma hello_split: "hello_line = hello_prefix @ drop 20 hello_line"
  by (simp add: hello_line_def hello_prefix_def)

lemma hello_line_messages: "line_messages json_parse 0 hello_line = [hello_message]"
  by (simp add: hello_line_def hello_message_def parse_defs record_defs)

lemma reply_line_messages: "line_messages json_parse 0 reply_line = [reply_message]"
  by (simp add: reply_line_def reply_message_def parse_defs record_defs)

lemma hello_prefix_parse: "json_parse hello_prefix = None"
  by (simp add: hello_prefix_def parse_defs)

lemma hello_rest_parse: "json_parse (drop 20 hello_line) = None"
  by (simp add: hello_line_def parse_defs)

lemma no_newline_hello: "\<forall>c \<in> set hello_line. c \<noteq> CHR 0x0A \<and> c \<noteq> CHR 0x0D"
  by (simp add: hello_line_def)

lemma no_newline_reply: "\<forall>c \<in> set reply_line. c \<noteq> CHR 0x0A \<and> c \<noteq> CHR 0x0D"
  by (simp add: reply_line_def)

lemma no_newline_prefix: "\<forall>c \<in> set hello_prefix. c \<noteq> CHR 0x0A \<and> c \<noteq> CHR 0x0D"
  by (simp add: hello_prefix_def)

lemma no_newline_rest: "\<forall>c \<in> set (drop 20 hello_line). c \<noteq> CHR 0x0A \<and> c \<noteq> CHR 0x0D"
  by (simp add: hello_line_def)

lemma view_fields [simp]:
  "contents (view c) = c" "read_error_after (view c) = None" "stat_size (view c) = Some (length c)"
  by (simp_all add: view_def)

lemma tick_snapshot:
  "tick parse None (snapshot c) s = visit_file parse (\<lambda>p. view c) ''demo'' s log_file"
  by (simp add: tick_def snapshot_def findConversationFiles_def filtered_out_def map_push_def)

lemma stream_lines_line:
  assumes "\<forall>c \<in> set l. c \<noteq> CHR 0x0A \<and> c \<noteq> CHR 0x0D"
  shows "stream_lines (view (l @ [CHR 0x0A])) 0 = [l]"
  using scan_lines_line [OF assms, of "[]"] by (simp add: stream_lines_def)

lemma stream_lines_partial:
  assumes "\<forall>c \<in> set l. c \<noteq> CHR 0x0A \<and> c \<noteq> CHR 0x0D"
  shows "stream_lines (view l) 0 = (if l = [] then [] else [l])"
  using scan_lines_no_newline [OF assms, of "[]"] by (simp add: stream_lines_def)

lemma first_tick:
  "tick parse None (snapshot c) init_state =
     (init_state\<lparr>filePositions := [log_file \<mapsto> length c]\<rparr>, [])"
  by (simp add: tick_snapshot visit_file_def emit_new_def update_position_def init_state_def)

lemma extract_view:
  assumes "drop pos c = [] \<or> last (drop pos c) = CHR 0x0A"
  shows "extractAllMessages parse (view c) pos =
           lines_messages parse 0 (fst (scan_lines [] (drop pos c)))"
proof -
  obtain ls r where sl: "scan_lines [] (drop pos c) = (ls, r)"
    by (cases "scan_lines [] (drop pos c)")
  from scan_lines_partial [OF assms, of "[]"] sl have "r = []" by simp
  with sl show ?thesis
    by (simp add: extractAllMessages_def stream_lines_def)
qed

lemma extract_prefix: "extractAllMessages json_parse (view hello_prefix) 0 = []"
  using no_newline_prefix
  by (simp add: extractAllMessages_def stream_lines_partial line_messages_def hello_prefix_parse)

lemma extract_rest: "extractAllMessages json_parse (view (hello_line @ [CHR 0x0A])) 20 = []"
proof -
  have "drop 20 (hello_line @ [CHR 0x0A]) = drop 20 hello_line @ [CHR 0x0A]"
    by (simp add: length_hello_line)
  with scan_lines_line [OF no_newline_rest, of "[]"]
  show ?thesis
    by (simp add: extractAllMessages_def stream_lines_def line_messages_def hello_rest_parse)
qed

section \<open>Partial lines\<close>

text \<open>
  Claim C3, as amended. Let the cursor of a file be at \<open>pos\<close>, and let the file hold
  \<open>c\<close> followed by an unterminated line \<open>part\<close> that does not parse, where the part
  of \<open>c\<close> past the cursor is empty or ends with a newline. Then the fetch returns what it
  returns for \<open>c\<close> alone, so no message comes from the partial line; but the line is
  read, and the visit sets the cursor to the size of the file, past the partial line.
  When the line is later completed by \<open>rest\<close> and a newline, the fetch from that cursor
  parses \<open>rest\<close> as a line of its own: the completed record is not read as a whole.
\<close>

theorem partial_line_is_read:
  assumes "filePositions s p = Some pos"
    and "fs p = view (c @ part)"
    and "pos \<le> length c"
    and "drop pos c = [] \<or> last (drop pos c) = CHR 0x0A"
    and "part \<noteq> []"
    and "\<forall>ch \<in> set part. ch \<noteq> CHR 0x0A \<and> ch \<noteq> CHR 0x0D"
    and "parse part = None"
    and "\<forall>ch \<in> set rest. ch \<noteq> CHR 0x0A \<and> ch \<noteq> CHR 0x0D"
  shows "extractAllMessages parse (fs p) pos = extractAllMessages parse (view c) pos \<and>
         filePositions (fst (visit_file parse fs project s p)) p = Some (length c + length part) \<and>
         extractAllMessages parse (view (c @ part @ rest @ [CHR 0x0A])) (length c + length part) =
           line_messages parse 0 rest"
proof (intro conjI)
  have d: "drop pos (c @ part) = drop pos c @ part"
    using assms(3) by simp
  from scan_lines_partial [OF assms(4) assms(6)]
  have "scan_lines [] (drop pos c @ part) = (fst (scan_lines [] (drop pos c)), part)" .
  then have "stream_lines (view (c @ part)) pos = fst (scan_lines [] (drop pos c)) @ [part]"
    using assms(5) by (simp add: stream_lines_def d del: drop_append)
  then have "extractAllMessages parse (view (c @ part)) pos =
      lines_messages parse 0 (fst (scan_lines [] (drop pos c)))"
    using assms(7) by (simp add: extractAllMessages_def lines_messages_append line_messages_def)
  then show "extractAllMessages parse (fs p) pos = extractAllMessages parse (view c) pos"
    by (simp add: assms(2) extract_view [OF assms(4)])
  show "filePositions (fst (visit_file parse fs project s p)) p = Some (length c + length part)"
    by (simp add: visit_file_positions filePositions_update_position assms(2))
  have "drop (length c + length part) (c @ part @ rest @ [CHR 0x0A]) = rest @ [CHR 0x0A]"
    by simp
  with scan_lines_line [OF assms(8), of "[]"]
  show "extractAllMessages parse (view (c @ part @ rest @ [CHR 0x0A])) (length c + length part) =
          line_messages parse 0 rest"
    by (simp add: extractAllMessages_def stream_lines_def)
qed

theorem partial_line_is_read_witness:
  "extractAllMessages json_parse (view hello_prefix) 0 = [] \<and>
   filePositions (fst (visit_file json_parse (\<lambda>p. view hello_prefix) ''demo''
     (init_state\<lparr>filePositions := [log_file \<mapsto> 0]\<rparr>) log_file)) log_file = Some 20 \<and>
   extractAllMessages json_parse (view (hello_line @ [CHR 0x0A])) 20 = []"
proof -
  let ?s = "init_state\<lparr>filePositions := [log_file \<mapsto> 0]\<rparr>"
  have a: "filePositions ?s log_file = Some 0" by simp
  have b: "(\<lambda>p. view hello_prefix) log_file = view ([] @ hello_prefix)" by simp
  have c: "drop 0 ([]::string) = [] \<or> last (drop 0 ([]::string)) = CHR 0x0A" by simp
  have d: "hello_prefix \<noteq> []" by (simp add: hello_prefix_def)
  have e: "extractAllMessages json_parse (view []) 0 = []"
    by (simp add: extractAllMessages_def stream_lines_def)
  have r: "line_messages json_parse 0 (drop 20 hello_line) = []"
    by (simp add: line_messages_def hello_rest_parse)
  have j: "hello_prefix @ drop 20 hello_line @ [CHR 0x0A] = hello_line @ [CHR 0x0A]"
    using hello_split by simp
  from partial_line_is_read [of ?s log_file 0 "\<lambda>p. view hello_prefix" "[]" hello_prefix
      json_parse "drop 20 hello_line" "''demo''",
      OF a b _ c d no_newline_prefix hello_prefix_parse no_newline_rest]
  show ?thesis
    by (simp add: e r j length_hello_prefix)
qed

text \<open>
  The claim as stated fails. The file is first seen empty; then the first 20 bytes of a
  valid user record are appended, without a newline, and the tick that reads them moves
  the cursor to 20, past the partial line; then the record is completed and terminated,
  and the tick that follows emits nothing, although the completed line is a valid
  message record.
\<close>

theorem partial_line_counterexample:
  "line_messages json_parse 0 hello_line = [hello_message] \<and>
   json_parse hello_prefix = None \<and>
   take 20 hello_line = hello_prefix \<and>
   filePositions (fst (watchConversations json_parse None
      [snapshot [], snapshot hello_prefix] init_state)) log_file = Some 20 \<and>
   emissions (snd (watchConversations json_parse None
      [snapshot [], snapshot hello_prefix, snapshot (hello_line @ [CHR 0x0A])] init_state)) = []"
proof -
  have "take 20 hello_line = hello_prefix"
    by (simp add: hello_line_def hello_prefix_def)
  then show ?thesis
    by (simp add: hello_line_messages hello_prefix_parse first_tick tick_snapshot visit_file_def
          emit_new_def update_position_def init_state_def extract_prefix extract_rest length_hello_prefix
          length_hello_line)
qed

lemma extract_beyond: "length c \<le> pos \<Longrightarrow> extractAllMessages parse (view c) pos = []"
  by (simp add: extractAllMessages_def stream_lines_def)

lemma length_reply_line: "length reply_line = 92"
  by (simp add: reply_line_def)

lemma length_two_lines: "length two_lines = 176"
  by (simp add: two_lines_def length_hello_line length_reply_line)

section \<open>The cursor and the size of the file\<close>

text \<open>
  Claim C4, as amended. A tick sets the cursor of every file it lists and whose \<open>stat\<close>
  succeeds to the size that \<open>stat\<close> reports, and leaves every other cursor as it is.
  Hence a tick does not lower the cursor of a file as long as the size reported for the
  file is not below the cursor: the cursor values of a file are non-decreasing while the
  file does not shrink.
\<close>

theorem cursor_follows_size:
  "filePositions (fst (tick parse pf env s)) p =
     (if p \<in> snd ` {x \<in> set (walk env). \<not> filtered_out pf (fst x)}
      then (case stat_size (files env p) of None \<Rightarrow> filePositions s p | Some n \<Rightarrow> Some n)
      else filePositions s p) \<and>
   (filePositions s p = Some c \<and> (\<forall>n. stat_size (files env p) = Some n \<longrightarrow> c \<le> n) \<longrightarrow>
      (\<exists>c'. filePositions (fst (tick parse pf env s)) p = Some c' \<and> c \<le> c'))"
proof -
  have eq: "filePositions (fst (tick parse pf env s)) p =
     (if p \<in> snd ` {x \<in> set (walk env). \<not> filtered_out pf (fst x)}
      then (case stat_size (files env p) of None \<Rightarrow> filePositions s p | Some n \<Rightarrow> Some n)
      else filePositions s p)"
    by (simp add: tick_pairs visit_pairs_positions set_tick_order split: option.splits)
  then show ?thesis
    by (auto split: option.splits)
qed

theorem cursor_follows_size_witness:
  "filePositions (init_state\<lparr>filePositions := [log_file \<mapsto> 20]\<rparr>) log_file = Some 20 \<and>
   stat_size (files (snapshot hello_line) log_file) = Some 82 \<and>
   (\<exists>c'. filePositions (fst (tick json_parse None (snapshot hello_line)
      (init_state\<lparr>filePositions := [log_file \<mapsto> 20]\<rparr>))) log_file = Some c' \<and> 20 \<le> c')"
  using cursor_follows_size [of json_parse None "snapshot hello_line"
      "init_state\<lparr>filePositions := [log_file \<mapsto> 20]\<rparr>" log_file 20]
  by (simp add: snapshot_def length_hello_line)

text \<open>
  The claim as stated fails for a file that shrinks: the file is first seen with 82
  bytes, which sets the cursor to 82; at the next tick it has 20 bytes, and the cursor
  goes down to 20.
\<close>

theorem cursor_monotone_counterexample:
  "filePositions (fst (watchConversations json_parse None
      [snapshot hello_line] init_state)) log_file = Some 82 \<and>
   filePositions (fst (watchConversations json_parse None
      [snapshot hello_line, snapshot hello_prefix] init_state)) log_file = Some 20 \<and>
   \<not> (82::nat) \<le> 20"
  by (simp add: first_tick tick_snapshot visit_file_def emit_new_def update_position_def init_state_def
        extract_beyond length_hello_prefix length_hello_line)

section \<open>A read that fails\<close>

text \<open>
  Claim C5, as amended. When the read of a file fails after \<open>k\<close> bytes, the fetch
  returns the messages of the lines terminated within these bytes; they pass the
  deduplication and are emitted. The cursor is set to the size that \<open>stat\<close> reports,
  whether the read failed or not; it stays where it was only when \<open>stat\<close> fails.
\<close>

theorem fetch_failure_keeps_messages:
  assumes "filePositions s p = Some pos"
    and "read_error_after (fs p) = Some k"
  shows "map e_message (snd (visit_file parse fs project s p)) =
           snd (emit_new (seen_of s p)
             (lines_messages parse 0
               (fst (scan_lines [] (take k (drop pos (contents (fs p)))))))) \<and>
         filePositions (fst (visit_file parse fs project s p)) p =
           (case stat_size (fs p) of None \<Rightarrow> Some pos | Some n \<Rightarrow> Some n)"
proof
  have "extractAllMessages parse (fs p) pos =
      lines_messages parse 0 (fst (scan_lines [] (take k (drop pos (contents (fs p))))))"
    by (simp add: extractAllMessages_def stream_lines_def assms(2))
  then show "map e_message (snd (visit_file parse fs project s p)) =
           snd (emit_new (seen_of s p)
             (lines_messages parse 0
               (fst (scan_lines [] (take k (drop pos (contents (fs p))))))))"
    by (simp add: visit_file_known(1) [OF assms(1)] comp_def)
  show "filePositions (fst (visit_file parse fs project s p)) p =
           (case stat_size (fs p) of None \<Rightarrow> Some pos | Some n \<Rightarrow> Some n)"
    by (simp add: visit_file_positions filePositions_update_position assms(1) split: option.splits)
qed

lemma tick_failing:
  "tick parse None failing_snapshot s = visit_file parse (files failing_snapshot) ''demo'' s log_file"
  by (simp add: tick_def failing_snapshot_def findConversationFiles_def filtered_out_def map_push_def)

lemma failing_fields:
  "contents (files failing_snapshot p) = two_lines"
  "read_error_after (files failing_snapshot p) = Some 83"
  "stat_size (files failing_snapshot p) = Some 176"
  by (simp_all add: failing_snapshot_def length_two_lines)

lemma failing_lines: "fst (scan_lines [] (take 83 two_lines)) = [hello_line]"
proof -
  have "take 83 two_lines = hello_line @ [CHR 0x0A]"
    by (simp add: two_lines_def length_hello_line)
  with scan_lines_line [OF no_newline_hello, of "[]"] show ?thesis by simp
qed

lemma extract_failing:
  "extractAllMessages json_parse (files failing_snapshot log_file) 0 = [hello_message]"
  by (simp add: extractAllMessages_def stream_lines_def failing_fields failing_lines
        hello_line_messages)

theorem fetch_failure_keeps_messages_witness:
  "map e_message (snd (visit_file json_parse (files failing_snapshot) ''demo''
      (init_state\<lparr>filePositions := [log_file \<mapsto> 0]\<rparr>) log_file)) = [hello_message] \<and>
   filePositions (fst (visit_file json_parse (files failing_snapshot) ''demo''
      (init_state\<lparr>filePositions := [log_file \<mapsto> 0]\<rparr>) log_file)) log_file = Some 176"
proof -
  let ?s = "init_state\<lparr>filePositions := [log_file \<mapsto> 0]\<rparr>"
  have a: "filePositions ?s log_file = Some 0" by simp
  have b: "seen_of ?s log_file = {}" by (simp add: seen_of_def init_state_def)
  from fetch_failure_keeps_messages [of ?s log_file 0 "files failing_snapshot" 83 json_parse "''demo''",
      OF a failing_fields(2)]
  show ?thesis
    by (simp add: failing_fields failing_lines hello_line_messages b emit_new_def)
qed

text \<open>
  The claim as stated fails. The file, first seen empty, then holds two records; the read
  fails after the first line while \<open>stat\<close> reports the whole file. The tick emits the
  message of the first line, so the batch is not treated as empty, and it moves the
  cursor from 0 to the end of the file. The second record is never emitted, not even by
  a later tick that reads the file without error.
\<close>

theorem fetch_failure_counterexample:
  "map e_message (emissions (snd (watchConversations json_parse None
      [snapshot [], failing_snapshot] init_state))) = [hello_message] \<and>
   filePositions (fst (watchConversations json_parse None
      [snapshot [], failing_snapshot] init_state)) log_file = Some 176 \<and>
   map e_message (emissions (snd (watchConversations json_parse None
      [snapshot [], failing_snapshot, snapshot two_lines] init_state))) = [hello_message]"
  by (simp add: first_tick tick_snapshot tick_failing visit_file_def emit_new_def update_position_def
        init_state_def extract_failing failing_fields extract_beyond length_two_lines
        hello_message_def)

lemmas load_defs = loadConversations_def load_row_def composer_id_def conversation_name_def
  js_or_def

lemmas scan_defs = cursor_tick_def visit_header_def seen_has_def seen_add_def bubble_output_def bubble_text_def
  conversation_skipped_def init_cursor_state_def js_trim_def js_space_def js_or_def

lemma load_greeting: "loadConversations json_parse greeting_db = [chat]"
  by (simp add: greeting_db_def chat_def load_defs parse_defs)

lemma load_two: "loadConversations json_parse two_db = [zeta, alpha]"
  by (simp add: two_db_def zeta_def alpha_def load_defs parse_defs)


lemma greeting_bubble: \<open>json_parse ''{"text":"  hi  "}'' = Some (JObj [(''text'', JStr ''  hi  '')])\<close>
  by (simp add: parse_defs)

lemma first_bubble: \<open>json_parse ''{"text":"first"}'' = Some (JObj [(''text'', JStr ''first'')])\<close>
  by (simp add: parse_defs)

lemma second_bubble: \<open>json_parse ''{"text":"second"}'' = Some (JObj [(''text'', JStr ''second'')])\<close>
  by (simp add: parse_defs)

lemma greeting_tick:
  "cursor_tick json_parse None greeting_db init_cursor_state =
     (\<lparr>seenBubbles = {JStr ''b1''}, lastCheck = 1\<rparr>, [KvEmitted chat (JStr ''b1'') True ''  hi  ''])"
proof -
  have "bubble_text json_parse (bubble_row greeting_db) (JStr ''b1'') = Some ''  hi  ''"
    by (simp add: bubble_text_def greeting_db_def greeting_bubble js_or_def js_trim_def js_space_def)
  then show ?thesis
    by (simp add: cursor_tick_def load_greeting conversation_skipped_def init_cursor_state_def
          visit_header_def seen_has_def seen_add_def bubble_output_def chat_def)
       (simp add: greeting_db_def)
qed

lemma two_tick:
  "snd (cursor_tick json_parse None two_db init_cursor_state) =
     [KvEmitted zeta (JStr ''b1'') True ''first'', KvEmitted alpha (JStr ''b2'') False ''second'']"
proof -
  have "bubble_text json_parse (bubble_row two_db) (JStr ''b1'') = Some ''first''"
    "bubble_text json_parse (bubble_row two_db) (JStr ''b2'') = Some ''second''"
    by (simp_all add: bubble_text_def two_db_def first_bubble second_bubble js_or_def js_trim_def
          js_space_def)
  then show ?thesis
    by (simp add: cursor_tick_def load_two conversation_skipped_def init_cursor_state_def
          visit_header_def seen_has_def seen_add_def bubble_output_def zeta_def alpha_def)
       (simp add: two_db_def)
qed



section \<open>At-most-once emission\<close>

lemma first_scans_subset: "set (first_scans seen ps) \<subseteq> set ps"
proof (induction ps arbitrary: seen)
  case Nil
  then show ?case by simp
next
  case (Cons p ps)
  obtain c b where p: "p = (c, b)" by (cases p)
  from Cons.IH [of seen] Cons.IH [of "seen_add seen b"] show ?case
    by (auto simp: p)
qed

lemma object_uuid_extract:
  "extractAllMessages json_parse (view object_uuid_lines) 0 =
     [\<lparr>m_type = Assistant, m_text = ''one'', m_timestamp = JStr [], m_id = JObj [], m_line = 0\<rparr>,
      \<lparr>m_type = Assistant, m_text = ''two'', m_timestamp = JStr [], m_id = JObj [], m_line = 1\<rparr>]"
  by (simp add: extractAllMessages_def stream_lines_def object_uuid_lines_def parse_defs record_defs)

lemma object_uuid_run:
  "emissions (snd (watchConversations json_parse None
      [snapshot [], snapshot object_uuid_lines] init_state)) =
   [Emitted ''demo'' log_file
      \<lparr>m_type = Assistant, m_text = ''one'', m_timestamp = JStr [], m_id = JObj [], m_line = 0\<rparr>,
    Emitted ''demo'' log_file
      \<lparr>m_type = Assistant, m_text = ''two'', m_timestamp = JStr [], m_id = JObj [], m_line = 1\<rparr>]"
  by (simp add: first_tick tick_snapshot visit_file_def emit_new_def update_position_def init_state_def
        object_uuid_extract)

lemma extract_hello: "extractAllMessages json_parse (view (hello_line @ [CHR 0x0A])) 0 = [hello_message]"
  by (simp add: extractAllMessages_def stream_lines_line [OF no_newline_hello] hello_line_messages)

lemma extract_reply: "extractAllMessages json_parse (view (reply_line @ [CHR 0x0A])) 0 = [reply_message]"
  by (simp add: extractAllMessages_def stream_lines_line [OF no_newline_reply] reply_line_messages)

lemma reread_run:
  "emissions (snd (watchConversations json_parse None
      [snapshot [], snapshot (hello_line @ [CHR 0x0A]), snapshot [],
       snapshot (hello_line @ [CHR 0x0A])] init_state)) =
   [Emitted ''demo'' log_file hello_message]"
  by (simp add: first_tick tick_snapshot visit_file_def emit_new_def update_position_def init_state_def
        extract_hello extract_beyond length_hello_line hello_message_def)

lemma load_array: "loadConversations json_parse array_db = [array_chat]"
  by (simp add: array_db_def array_chat_def load_defs parse_defs)

lemma again_bubble: \<open>json_parse ''{"text":"again"}'' = Some (JObj [(''text'', JStr ''again'')])\<close>
  by (simp add: parse_defs)

lemma array_tick:
  "snd (cursor_tick json_parse None array_db s) = [KvEmitted array_chat (JArr []) True ''again'']"
proof -
  have "bubble_text json_parse (bubble_row array_db) (JArr []) = Some ''again''"
    by (simp add: bubble_text_def array_db_def again_bubble js_or_def js_trim_def js_space_def)
  then show ?thesis
    by (simp add: cursor_tick_def load_array conversation_skipped_def
          visit_header_def seen_has_def seen_add_def bubble_output_def array_chat_def)
       (simp add: array_db_def)
qed

lemma array_run:
  "emissions (snd (watchCursorConversations json_parse None [array_db, array_db] init_cursor_state)) =
     [KvEmitted array_chat (JArr []) True ''again'', KvEmitted array_chat (JArr []) True ''again'']"
  by (simp add: case_prod_unfold array_tick emissions_append emissions_map_Emit)

text \<open>
  Claim C1, as amended. The identifiers that are primitive values (strings, numbers,
  booleans, \<open>null\<close>, \<open>undefined\<close>) are compared by value, and for them the claim holds, whatever the
  parser, the filter and the sequence of snapshots: the primitive identifiers emitted
  for a log file are pairwise different, and so are the primitive \<open>bubbleId\<close>s emitted
  for a conversation of the key-value store. This holds also when a later read returns
  records that an earlier read has returned, because every candidate is tested against
  the set of seen identifiers and entered there before it is emitted: at the end of the
  run every emitted primitive identifier is in that set.
\<close>

theorem at_most_once_emission:
  "distinct (filter primitive
     (file_ids p (emissions (snd (watchConversations parse projectFilter envs init_state))))) \<and>
   set (filter primitive
     (file_ids p (emissions (snd (watchConversations parse projectFilter envs init_state)))))
     \<subseteq> seen_of (fst (watchConversations parse projectFilter envs init_state)) p \<and>
   distinct (filter primitive (map k_bubble (filter (\<lambda>e. c_id (k_conversation e) = u)
     (emissions (snd (watchCursorConversations parse projectFilter' dbs init_cursor_state)))))) \<and>
   set (filter primitive (map k_bubble
     (emissions (snd (watchCursorConversations parse projectFilter' dbs init_cursor_state)))))
     \<subseteq> seenBubbles (fst (watchCursorConversations parse projectFilter' dbs init_cursor_state))"
proof -
  obtain s1 evs1 where w1: "watchConversations parse projectFilter envs init_state = (s1, evs1)"
    by (cases "watchConversations parse projectFilter envs init_state")
  obtain s2 evs2 where w2: "watchCursorConversations parse projectFilter' dbs init_cursor_state = (s2, evs2)"
    by (cases "watchCursorConversations parse projectFilter' dbs init_cursor_state")
  from watch_inv_run [OF w1] have a: "distinct (filter primitive (file_ids p (emissions evs1)))"
    and b: "set (filter primitive (file_ids p (emissions evs1))) \<subseteq> seen_of s1 p"
    by (simp_all add: watch_inv_def)
  have "subseq (filter (\<lambda>e. c_id (k_conversation e) = u) (emissions evs2)) (emissions evs2)"
    by simp
  then have c: "distinct (filter primitive (map k_bubble
      (filter (\<lambda>e. c_id (k_conversation e) = u) (emissions evs2))))"
    using kv_distinct [OF w2] by (rule subseq_distinct_map)
  let ?scan = "run_scan parse projectFilter' dbs"
  from watch_cursor_scan [OF w2]
  have seen: "seenBubbles s2 = prim_ids ?scan"
    and sub: "subseq (map pair_of (emissions evs2)) (first_scans {} ?scan)"
    by (simp_all add: init_cursor_state_def)
  have d: "set (filter primitive (map k_bubble (emissions evs2))) \<subseteq> seenBubbles s2"
  proof
    fix b
    assume "b \<in> set (filter primitive (map k_bubble (emissions evs2)))"
    then obtain e where e: "e \<in> set (emissions evs2)" "b = k_bubble e" "primitive b" by auto
    then have "pair_of e \<in> set (map pair_of (emissions evs2))" by simp
    with sub have "pair_of e \<in> set (first_scans {} ?scan)"
      by (rule subseq_mem)
    then have "pair_of e \<in> set ?scan"
      using first_scans_subset [of "{}" ?scan] by blast
    then have "snd (pair_of e) \<in> snd ` set ?scan" by (rule imageI)
    with e have "b \<in> prim_ids ?scan" by (simp add: prim_ids_def pair_of_def)
    with seen show "b \<in> seenBubbles s2" by simp
  qed
  from a b c d show ?thesis by (simp add: w1 w2)
qed

text \<open>
  An example of the amended claim: the file is emptied and then holds the same record
  again, so the record is read twice; it is emitted once.
\<close>

theorem at_most_once_emission_witness:
  "map m_id (extractAllMessages json_parse (view (hello_line @ [CHR 0x0A])) 0) = [JStr ''u1''] \<and>
   file_ids log_file (emissions (snd (watchConversations json_parse None
      [snapshot [], snapshot (hello_line @ [CHR 0x0A]), snapshot [],
       snapshot (hello_line @ [CHR 0x0A])] init_state))) = [JStr ''u1''] \<and>
   JStr ''u1'' \<in> seen_of (fst (watchConversations json_parse None
      [snapshot [], snapshot (hello_line @ [CHR 0x0A]), snapshot [],
       snapshot (hello_line @ [CHR 0x0A])] init_state)) log_file"
proof -
  have ids: "file_ids log_file (emissions (snd (watchConversations json_parse None
      [snapshot [], snapshot (hello_line @ [CHR 0x0A]), snapshot [],
       snapshot (hello_line @ [CHR 0x0A])] init_state))) = [JStr ''u1'']"
    unfolding reread_run by (simp add: file_ids_def hello_message_def)
  from at_most_once_emission [of log_file json_parse None
      "[snapshot [], snapshot (hello_line @ [CHR 0x0A]), snapshot [],
        snapshot (hello_line @ [CHR 0x0A])]"]
  have "set (filter primitive (file_ids log_file (emissions (snd (watchConversations json_parse None
      [snapshot [], snapshot (hello_line @ [CHR 0x0A]), snapshot [],
       snapshot (hello_line @ [CHR 0x0A])] init_state)))))
     \<subseteq> seen_of (fst (watchConversations json_parse None
      [snapshot [], snapshot (hello_line @ [CHR 0x0A]), snapshot [],
       snapshot (hello_line @ [CHR 0x0A])] init_state)) log_file"
    by blast
  then have "JStr ''u1'' \<in> seen_of (fst (watchConversations json_parse None
      [snapshot [], snapshot (hello_line @ [CHR 0x0A]), snapshot [],
       snapshot (hello_line @ [CHR 0x0A])] init_state)) log_file"
    unfolding ids by simp
  with ids show ?thesis
    by (simp add: extract_hello hello_message_def)
qed

text \<open>
  The claim as stated fails for identifiers that are arrays or objects, which the sets of
  seen identifiers compare by reference while every parse builds new ones. Two records
  of a log file have the \<open>uuid\<close> \<open>{}\<close>: both are emitted, so the identifier \<open>{}\<close> is
  emitted twice for the file. The only header of a conversation of the key-value store
  has the \<open>bubbleId\<close> \<open>[]\<close>: the bubble is emitted on each of two ticks.
\<close>

theorem at_most_once_counterexample:
  "file_ids log_file (emissions (snd (watchConversations json_parse None
      [snapshot [], snapshot object_uuid_lines] init_state))) = [JObj [], JObj []] \<and>
   \<not> distinct (file_ids log_file (emissions (snd (watchConversations json_parse None
      [snapshot [], snapshot object_uuid_lines] init_state)))) \<and>
   map k_bubble (filter (\<lambda>e. c_id (k_conversation e) = JStr ''c1'')
     (emissions (snd (watchCursorConversations json_parse None [array_db, array_db]
        init_cursor_state)))) = [JArr [], JArr []] \<and>
   \<not> distinct (map k_bubble (filter (\<lambda>e. c_id (k_conversation e) = JStr ''c1'')
     (emissions (snd (watchCursorConversations json_parse None [array_db, array_db]
        init_cursor_state)))))"
  unfolding object_uuid_run array_run by (simp add: file_ids_def array_chat_def)

section \<open>First sight of a unit\<close>

text \<open>
  Claim C2, as amended. First-sight suppression holds for the log-file source: a tick
  that lists a file which has no cursor yet, and for which \<open>stat\<close> reports \<open>n\<close> bytes,
  emits no message for that file and leaves its cursor at \<open>n\<close> (no file being reached
  twice by the walk of the directories). The key-value source
  keeps no cursor: a tick emits, in the order of the scan, exactly the bubbles that are
  not yet in \<open>seenBubbles\<close>, are not earlier in the same scan and resolve to a text with
  a non-empty trimmed form, whether their conversation has been seen before or not.
\<close>

theorem first_sight_suppression:
  assumes "filePositions s p = None"
    and "(parent, p) \<in> set (walk env)"
    and "\<not> filtered_out pf parent"
    and "distinct (map snd (walk env))"
    and "stat_size (files env p) = Some n"
  shows "filter (\<lambda>e. e_file e = p) (snd (tick parse pf env s)) = [] \<and>
         filePositions (fst (tick parse pf env s)) p = Some n \<and>
         map pair_of (snd (cursor_tick parse pf' db s')) =
           filter (resolves parse (bubble_row db))
             (first_scans (seenBubbles s') (tick_scan parse pf' db))"
proof (intro conjI)
  have listed: "(parent, p) \<in> set (tick_order pf env)"
    using assms(2,3) by (simp add: set_tick_order)
  have "filter (\<lambda>e. e_file e = p) (snd (tick parse pf env s)) =
      snd (visit_file parse (files env) parent (tick_start pf env s) p)"
    unfolding tick_pairs
    by (rule visit_pairs_once [OF distinct_tick_order [OF assms(4)] listed])
  then show "filter (\<lambda>e. e_file e = p) (snd (tick parse pf env s)) = []"
    by (simp add: visit_file_events assms(1))
  have "p \<in> snd ` set (tick_order pf env)"
    using listed by force
  then show "filePositions (fst (tick parse pf env s)) p = Some n"
    by (simp add: tick_pairs visit_pairs_positions assms(5))
  obtain s2 out where t: "cursor_tick parse pf' db s' = (s2, out)"
    by (cases "cursor_tick parse pf' db s'")
  from cursor_tick_scan [OF t] t
  show "map pair_of (snd (cursor_tick parse pf' db s')) =
          filter (resolves parse (bubble_row db))
            (first_scans (seenBubbles s') (tick_scan parse pf' db))"
    by simp
qed

theorem first_sight_suppression_witness:
  "filePositions init_state log_file = None \<and>
   stat_size (files (snapshot (hello_line @ [CHR 0x0A])) log_file) = Some 83 \<and>
   filter (\<lambda>e. e_file e = log_file)
     (snd (tick json_parse None (snapshot (hello_line @ [CHR 0x0A])) init_state)) = [] \<and>
   filePositions (fst (tick json_parse None (snapshot (hello_line @ [CHR 0x0A])) init_state))
     log_file = Some 83"
proof -
  let ?env = "snapshot (hello_line @ [CHR 0x0A])"
  have a: "filePositions init_state log_file = None" by (simp add: init_state_def)
  have b: "(''demo'', log_file) \<in> set (walk ?env)" by (simp add: snapshot_def)
  have c: "\<not> filtered_out None ''demo''" by (simp add: filtered_out_def)
  have d: "distinct (map snd (walk ?env))" by (simp add: snapshot_def)
  have e: "stat_size (files ?env log_file) = Some 83"
    by (simp add: snapshot_def length_hello_line)
  from first_sight_suppression [OF a b c d e, of json_parse] a e
  show ?thesis by simp
qed

text \<open>
  The claim as stated fails for the key-value source. The conversation \<open>chat\<close> has one
  header when the watcher first sees it, and the first tick emits the bubble of that
  header.
\<close>

theorem first_sight_kv_counterexample:
  "loadConversations json_parse greeting_db = [chat] \<and>
   emissions (snd (watchCursorConversations json_parse None [greeting_db] init_cursor_state)) =
     [KvEmitted chat (JStr ''b1'') True ''  hi  '']"
  by (simp add: load_greeting greeting_tick)

section \<open>The order of the emissions of a tick\<close>

text \<open>
  Claim C6, as amended. A tick of the log-file source hands its messages to the output
  code in ascending order of the project name; when no file is reached twice by the
  walk, the messages of a file are in the order in which \<open>extractAllMessages\<close> returned
  them. A tick of the key-value source hands over its bubbles in the order of the scan,
  which is the order in which the query returned the conversations and, within a
  conversation, the order of its headers; the names of the conversations play no part.
\<close>

theorem deterministic_interleaving:
  "sorted (map e_project (snd (tick parse pf env s))) \<and>
   (distinct (map snd (walk env)) \<longrightarrow>
      subseq (map e_message (filter (\<lambda>e. e_file e = p) (snd (tick parse pf env s))))
        (case filePositions s p of
           None \<Rightarrow> []
         | Some lastPos \<Rightarrow> extractAllMessages parse (files env p) lastPos)) \<and>
   map pair_of (snd (cursor_tick parse pf' db s')) =
     filter (resolves parse (bubble_row db))
       (first_scans (seenBubbles s') (tick_scan parse pf' db))"
proof (intro conjI impI)
  show "sorted (map e_project (snd (tick parse pf env s)))"
    unfolding tick_pairs by (rule visit_pairs_sorted [OF sorted_tick_order])
  show "subseq (map e_message (filter (\<lambda>e. e_file e = p) (snd (tick parse pf env s))))
        (case filePositions s p of
           None \<Rightarrow> []
         | Some lastPos \<Rightarrow> extractAllMessages parse (files env p) lastPos)"
    if d: "distinct (map snd (walk env))"
  proof (cases "p \<in> snd ` set (tick_order pf env)")
    case True
    then obtain project where listed: "(project, p) \<in> set (tick_order pf env)" by force
    have eq: "filter (\<lambda>e. e_file e = p) (snd (tick parse pf env s)) =
        snd (visit_file parse (files env) project (tick_start pf env s) p)"
      unfolding tick_pairs
      by (rule visit_pairs_once [OF distinct_tick_order [OF d] listed])
    show ?thesis
    proof (cases "filePositions s p")
      case None
      then show ?thesis by (simp add: eq visit_file_events)
    next
      case (Some lastPos)
      then show ?thesis
        by (simp add: eq visit_file_events comp_def emit_new_subseq)
    qed
  next
    case False
    from visit_pairs_other [OF False, of parse "files env" "tick_start pf env s"]
    show ?thesis by (simp add: tick_pairs)
  qed
  obtain s2 out where t: "cursor_tick parse pf' db s' = (s2, out)"
    by (cases "cursor_tick parse pf' db s'")
  from cursor_tick_scan [OF t] t
  show "map pair_of (snd (cursor_tick parse pf' db s')) =
          filter (resolves parse (bubble_row db))
            (first_scans (seenBubbles s') (tick_scan parse pf' db))"
    by simp
qed

lemma two_projects_tick:
  "snd (tick json_parse None (two_projects (hello_line @ [CHR 0x0A]) (reply_line @ [CHR 0x0A]))
     (init_state\<lparr>filePositions := [zeta_file \<mapsto> 0, alpha_file \<mapsto> 0]\<rparr>)) =
   [Emitted ''alpha'' alpha_file reply_message, Emitted ''zeta'' zeta_file hello_message]"
proof -
  have ne: "alpha_file \<noteq> zeta_file" by (simp add: alpha_file_def zeta_file_def)
  have cf: "findConversationFiles None [(''zeta'', zeta_file), (''alpha'', alpha_file)] =
      [(''zeta'', [zeta_file]), (''alpha'', [alpha_file])]"
    by (simp add: findConversationFiles_def filtered_out_def map_push_def)
  show ?thesis
    using ne
    by (simp add: tick_def two_projects_def cf visit_file_def emit_new_def update_position_def init_state_def
          extract_hello extract_reply hello_message_def reply_message_def)
qed

theorem deterministic_interleaving_witness:
  "walk (two_projects (hello_line @ [CHR 0x0A]) (reply_line @ [CHR 0x0A])) =
     [(''zeta'', zeta_file), (''alpha'', alpha_file)] \<and>
   snd (tick json_parse None (two_projects (hello_line @ [CHR 0x0A]) (reply_line @ [CHR 0x0A]))
     (init_state\<lparr>filePositions := [zeta_file \<mapsto> 0, alpha_file \<mapsto> 0]\<rparr>)) =
   [Emitted ''alpha'' alpha_file reply_message, Emitted ''zeta'' zeta_file hello_message] \<and>
   sorted [''alpha'', ''zeta''] \<and>
   subseq [hello_message] (extractAllMessages json_parse (view (hello_line @ [CHR 0x0A])) 0)"
proof -
  let ?env = "two_projects (hello_line @ [CHR 0x0A]) (reply_line @ [CHR 0x0A])"
  let ?s = "init_state\<lparr>filePositions := [zeta_file \<mapsto> 0, alpha_file \<mapsto> 0]\<rparr>"
  have ne: "alpha_file \<noteq> zeta_file" by (simp add: alpha_file_def zeta_file_def)
  have d: "distinct (map snd (walk ?env))" using ne by (simp add: two_projects_def)
  have ne': "zeta_file \<noteq> alpha_file" using ne by simp
  have fz: "files ?env zeta_file = view (hello_line @ [CHR 0x0A])" by (simp add: two_projects_def)
  from deterministic_interleaving [of json_parse None ?env ?s zeta_file] d
  have "sorted (map e_project (snd (tick json_parse None ?env ?s)))"
    and "subseq (map e_message (filter (\<lambda>e. e_file e = zeta_file) (snd (tick json_parse None ?env ?s))))
        (extractAllMessages json_parse (view (hello_line @ [CHR 0x0A])) 0)"
    by (simp_all add: ne' fz)
  then show ?thesis
    using ne by (simp add: two_projects_tick) (simp add: two_projects_def)
qed

text \<open>
  The claim as stated fails for the key-value source. Both conversations of \<open>two_db\<close>
  have a new bubble in the first tick; the bubble of \<open>zeta\<close> is handed over before the
  bubble of \<open>alpha\<close>, because the query returned \<open>zeta\<close> first.
\<close>

theorem interleaving_kv_counterexample:
  "map (\<lambda>e. c_name (k_conversation e)) (snd (cursor_tick json_parse None two_db init_cursor_state)) =
     [JStr ''zeta'', JStr ''alpha''] \<and>
   \<not> sorted [''zeta'', ''alpha'']"
  by (simp add: two_tick zeta_def alpha_def)

section \<open>The text of an emission\<close>






section \<open>The sleep between two ticks\<close>

lemma watch_sleeps:
  "sleeps (snd (watchConversations parse pf envs s)) = replicate (length envs) poll_interval_ms"
proof (induction envs arbitrary: s)
  case Nil
  then show ?case by simp
next
  case (Cons env envs)
  obtain s1 out1 where t: "tick parse pf env s = (s1, out1)"
    by (cases "tick parse pf env s")
  obtain s2 evs2 where w: "watchConversations parse pf envs s1 = (s2, evs2)"
    by (cases "watchConversations parse pf envs s1")
  from Cons.IH [of s1] show ?case
    by (simp add: t w sleeps_append sleeps_map_Emit)
qed

lemma watch_cursor_sleeps:
  "sleeps (snd (watchCursorConversations parse pf dbs s)) =
     replicate (length dbs) cursor_poll_interval_ms"
proof (induction dbs arbitrary: s)
  case Nil
  then show ?case by simp
next
  case (Cons db dbs)
  obtain s1 out1 where t: "cursor_tick parse pf db s = (s1, out1)"
    by (cases "cursor_tick parse pf db s")
  obtain s2 evs2 where w: "watchCursorConversations parse pf dbs s1 = (s2, evs2)"
    by (cases "watchCursorConversations parse pf dbs s1")
  from Cons.IH [of s1] show ?case
    by (simp add: t w sleeps_append sleeps_map_Emit)
qed

text \<open>
  Claim C8, as amended. Each source sleeps for a fixed time after every tick: the
  log-file source for 100 ms, the key-value source for 500 ms, also after a tick that
  was left by an exception. The log-file source is the one that polls faster.
\<close>

theorem polling_cadence:
  "sleeps (snd (watchConversations parse pf envs s)) = replicate (length envs) 100 \<and>
   sleeps (snd (watchCursorConversations parse pf' dbs s')) = replicate (length dbs) 500 \<and>
   poll_interval_ms < cursor_poll_interval_ms"
  by (simp add: watch_sleeps watch_cursor_sleeps poll_interval_ms_def cursor_poll_interval_ms_def)

text \<open>
  The claim as stated fails: the interval of the key-value source, 500 ms, is not shorter
  than the 100 ms of the log-file source.
\<close>

theorem polling_cadence_counterexample:
  "sleeps (snd (watchConversations json_parse None [snapshot []] init_state)) = [100] \<and>
   sleeps (snd (watchCursorConversations json_parse None [greeting_db] init_cursor_state)) = [500] \<and>
   \<not> cursor_poll_interval_ms < poll_interval_ms"
  by (simp add: first_tick greeting_tick poll_interval_ms_def cursor_poll_interval_ms_def
        sleeps_map_Emit)

section \<open>Records without an identifier\<close>

lemma mk_message_id:
  "m \<in> set (mk_message r data k text) \<Longrightarrow> get data ''uuid'' = Some u \<Longrightarrow> m_id m = js_or u (JStr [])"
  by (auto simp: mk_message_def split: option.splits)

lemma user_item_id:
  "user_item data k item = Some ms \<Longrightarrow> m \<in> set ms \<Longrightarrow> get data ''uuid'' = Some u \<Longrightarrow>
     m_id m = js_or u (JStr [])"
  by (auto simp: user_item_def split: option.splits if_splits dest: mk_message_id)

lemma assistant_item_id:
  "assistant_item data k item = Some ms \<Longrightarrow> m \<in> set ms \<Longrightarrow> get data ''uuid'' = Some u \<Longrightarrow>
     m_id m = js_or u (JStr [])"
  by (auto simp: assistant_item_def split: option.splits if_splits dest: mk_message_id)

lemma process_record_id:
  assumes "m \<in> set (process_record data k)" "get data ''uuid'' = Some u"
  shows "m_id m = js_or u (JStr [])"
proof -
  have u: "\<And>item ms m. user_item data k item = Some ms \<Longrightarrow> m \<in> set ms \<Longrightarrow> m_id m = js_or u (JStr [])"
    using assms(2) by (rule user_item_id [rotated 2])
  have a: "\<And>item ms m. assistant_item data k item = Some ms \<Longrightarrow> m \<in> set ms \<Longrightarrow> m_id m = js_or u (JStr [])"
    using assms(2) by (rule assistant_item_id [rotated 2])
  from assms(1) show ?thesis
    using content_messages_all [of "user_item data k" "\<lambda>m. m_id m = js_or u (JStr [])" m, OF u]
      content_messages_all [of "assistant_item data k" "\<lambda>m. m_id m = js_or u (JStr [])" m, OF a]
    by (auto simp: process_record_def split: option.splits if_splits)
qed

lemma distinct_count_le_1: "distinct xs \<Longrightarrow> length (filter (\<lambda>y. y = x) xs) \<le> 1"
  by (induction xs) (auto simp: filter_empty_conv)

text \<open>
  Claim C9. A record without \<open>uuid\<close> yields messages with the identifier \<open>""\<close> only,
  and in a whole run at most one message with this identifier is emitted for a file:
  every later message of the file that has no \<open>uuid\<close> is dropped by the test against
  the seen identifiers, whatever its text.
\<close>

theorem missing_uuid_collapse:
  "(get data ''uuid'' = Some JUndefined \<longrightarrow> (\<forall>m \<in> set (process_record data k). m_id m = JStr [])) \<and>
   length (filter (\<lambda>e. e_file e = p \<and> m_id (e_message e) = JStr [])
     (emissions (snd (watchConversations parse pf envs init_state)))) \<le> 1"
proof
  show "get data ''uuid'' = Some JUndefined \<longrightarrow> (\<forall>m \<in> set (process_record data k). m_id m = JStr [])"
    using process_record_id [of _ data k JUndefined] by (auto simp: js_or_def)
  obtain s1 evs1 where w1: "watchConversations parse pf envs init_state = (s1, evs1)"
    by (cases "watchConversations parse pf envs init_state")
  from watch_inv_run [OF w1] have "distinct (filter primitive (file_ids p (emissions evs1)))"
    by (simp add: watch_inv_def)
  then have "length (filter (\<lambda>y. y = JStr []) (filter primitive (file_ids p (emissions evs1)))) \<le> 1"
    by (rule distinct_count_le_1)
  moreover have "filter (\<lambda>y. y = JStr []) (filter primitive (file_ids p (emissions evs1))) =
      filter (\<lambda>y. y = JStr []) (file_ids p (emissions evs1))"
    by (auto intro: filter_cong)
  moreover have "length (filter (\<lambda>y. y = JStr []) (file_ids p (emissions evs1))) =
      length (filter (\<lambda>e. e_file e = p \<and> m_id (e_message e) = JStr []) (emissions evs1))"
    by (simp add: file_ids_def filter_map comp_def conj_commute)
  ultimately show "length (filter (\<lambda>e. e_file e = p \<and> m_id (e_message e) = JStr [])
     (emissions (snd (watchConversations parse pf envs init_state)))) \<le> 1"
    by (simp add: w1)
qed

lemma anonymous_extract:
  "extractAllMessages json_parse (view anonymous_lines) 0 =
     [\<lparr>m_type = Assistant, m_text = ''one'', m_timestamp = JStr [], m_id = JStr [], m_line = 0\<rparr>,
      \<lparr>m_type = Assistant, m_text = ''two'', m_timestamp = JStr [], m_id = JStr [], m_line = 1\<rparr>]"
  by (simp add: extractAllMessages_def stream_lines_def anonymous_lines_def parse_defs record_defs)

lemma anonymous_run:
  "emissions (snd (watchConversations json_parse None
      [snapshot [], snapshot anonymous_lines] init_state)) =
   [Emitted ''demo'' log_file
      \<lparr>m_type = Assistant, m_text = ''one'', m_timestamp = JStr [], m_id = JStr [], m_line = 0\<rparr>]"
  by (simp add: first_tick tick_snapshot visit_file_def emit_new_def update_position_def init_state_def
        anonymous_extract)

theorem missing_uuid_collapse_witness:
  "map (\<lambda>m. (m_text m, m_id m)) (extractAllMessages json_parse (view anonymous_lines) 0) =
     [(''one'', JStr []), (''two'', JStr [])] \<and>
   map (\<lambda>e. m_text (e_message e)) (emissions (snd (watchConversations json_parse None
      [snapshot [], snapshot anonymous_lines] init_state))) = [''one''] \<and>
   length (filter (\<lambda>e. e_file e = log_file \<and> m_id (e_message e) = JStr [])
     (emissions (snd (watchConversations json_parse None
        [snapshot [], snapshot anonymous_lines] init_state)))) \<le> 1 \<and>
   map m_id (process_record (JObj [(''type'', JStr ''assistant''),
      (''message'', JObj [(''content'', JArr [JObj [(''type'', JStr ''text''), (''text'', JStr ''two'')]])])]) 0) =
     [JStr []]"
proof -
  let ?d = "JObj [(''type'', JStr ''assistant''),
      (''message'', JObj [(''content'', JArr [JObj [(''type'', JStr ''text''), (''text'', JStr ''two'')]])])]"
  let ?m = "\<lparr>m_type = Assistant, m_text = ''two'', m_timestamp = JStr [], m_id = JStr [], m_line = 0\<rparr>"
  note th = missing_uuid_collapse [of ?d 0 log_file json_parse None "[snapshot [], snapshot anonymous_lines]"]
  have u: "get ?d ''uuid'' = Some JUndefined" by simp
  have pr: "process_record ?d 0 = [?m]" by (simp add: record_defs)
  from th u have "\<forall>m \<in> set (process_record ?d 0). m_id m = JStr []" by blast
  then have ids: "map m_id (process_record ?d 0) = [JStr []]" by (simp add: pr)
  from th have le: "length (filter (\<lambda>e. e_file e = log_file \<and> m_id (e_message e) = JStr [])
     (emissions (snd (watchConversations json_parse None
        [snapshot [], snapshot anonymous_lines] init_state)))) \<le> 1"
    by blast
  have "map (\<lambda>e. m_text (e_message e)) (emissions (snd (watchConversations json_parse None
      [snapshot [], snapshot anonymous_lines] init_state))) = [''one'']"
    unfolding anonymous_run by simp
  with ids le show ?thesis
    unfolding anonymous_extract by simp
qed

section \<open>One set of seen bubbles for all conversations\<close>







end
